theory Spec2Isabelle
  imports Main "HOL-Library.Code_Target_Numeral"
begin

unbundle bit_operations_syntax

section \<open>Integer-sequence codecs: a shallow embedding of the Python sources\<close>

text \<open>
  The library works on non-negative Python integers: numbers to encode, bytes, 32-bit
  words, bit offsets and bit counts. These are modelled as \<^typ>\<open>nat\<close>; every subtraction
  of the source that could go below zero is either guarded by the same test as in the
  source or carried out on \<^typ>\<open>int\<close>. Where the source itself produces negative values
  (gaps, the Elias-Fano preprocessing) the model uses \<^typ>\<open>int\<close>.
  Shifts \<open>x << k\<close> and \<open>x >> k\<close> are \<^const>\<open>push_bit\<close> and \<^const>\<open>drop_bit\<close>, \<open>&\<close> is \<open>AND\<close>.
  Every exception the interpreter would raise is a value \<open>Inl e\<close> of the result.
\<close>

datatype py_error = IndexError | ValueError | TypeError | KeyError | PyException


subsection \<open>bitbytearray/bitbyteutils.py\<close>

text \<open>
  \<^verbatim>\<open>if padding >= 0 or padding < 8: return\<close> followed by \<^verbatim>\<open>raise Exception(...)\<close>.
\<close>

definition validate_padding :: "int \<Rightarrow> py_error + unit" where
  "validate_padding padding =
     (if padding \<ge> 0 \<or> padding < 8 then Inr () else Inl PyException)"


subsection \<open>gapsencoder.py\<close>

text \<open>
  Both functions receive the caller's list object. The model returns the pair of the
  returned list and the contents of the caller's list after the call.
  \<open>encode\<close> only reads \<open>numbers\<close>; \<open>decode\<close> executes \<^verbatim>\<open>gaps.pop(0)\<close> on it.
\<close>

definition gaps_encode :: "int list \<Rightarrow> py_error + (int list \<times> int list)" where
  "gaps_encode numbers =
     (if numbers = [] then Inl IndexError
      else Inr ([numbers ! 0] @ map (\<lambda>i. numbers ! i - numbers ! (i - 1)) [1..<length numbers],
                numbers))"

text \<open>The loop \<^verbatim>\<open>for gap in gaps: numbers.append(gap + numbers[-1])\<close>.\<close>

fun gaps_decode_loop :: "int list \<Rightarrow> int list \<Rightarrow> int list" where
  "gaps_decode_loop numbers [] = numbers"
| "gaps_decode_loop numbers (gap # gaps) = gaps_decode_loop (numbers @ [gap + last numbers]) gaps"

definition gaps_decode :: "int list \<Rightarrow> py_error + (int list \<times> int list)" where
  "gaps_decode gaps =
     (case gaps of
        [] \<Rightarrow> Inl IndexError
      | g # popped \<Rightarrow> Inr (gaps_decode_loop [g] popped, popped))"


subsection \<open>vbencoder.py\<close>

text \<open>
  \<open>decode_number\<close>: the loop \<^verbatim>\<open>for i in range(byte_index, len(encoded))\<close> runs over the
  bytes from \<open>byte_index\<close> on; \<open>None\<close> means the loop ended without \<^verbatim>\<open>return\<close>.
\<close>

fun vb_decode_number_loop :: "nat \<Rightarrow> nat \<Rightarrow> nat list \<Rightarrow> (nat \<times> nat) option" where
  "vb_decode_number_loop number i [] = None"
| "vb_decode_number_loop number i (byte # rest) =
     (let number = push_bit 7 number + byte
      in if byte > 127 then Some (number - 128, (i + 1) * 8)
         else vb_decode_number_loop number (i + 1) rest)"

definition vb_decode_number :: "nat list \<Rightarrow> nat \<Rightarrow> nat \<times> nat" where
  "vb_decode_number encoded offset =
     (let byte_index = drop_bit 3 offset
      in case vb_decode_number_loop 0 byte_index (drop byte_index encoded) of
           Some r \<Rightarrow> r
         | None \<Rightarrow> (0, offset))"


subsection \<open>unaryencoder.py\<close>

text \<open>
  \<^verbatim>\<open>int(math.ceil(a / float(b)))\<close> for non-negative \<open>a\<close> and the divisors 8 and 32 used in
  the sources: the quotient by a power of two is exact in binary floating point, so the
  result is the integer ceiling.
\<close>

definition ceil_div :: "nat \<Rightarrow> nat \<Rightarrow> nat" where
  "ceil_div a b = (a + b - 1) div b"

text \<open>\<^verbatim>\<open>encoded[-1] = f(encoded[-1])\<close>: IndexError on the empty list.\<close>

definition update_last :: "(nat \<Rightarrow> nat) \<Rightarrow> nat list \<Rightarrow> py_error + nat list" where
  "update_last f encoded =
     (if encoded = [] then Inl IndexError
      else Inr (encoded[length encoded - 1 := f (last encoded)]))"

definition unary_encode :: "nat \<Rightarrow> bool \<Rightarrow> py_error + (nat list \<times> nat)" where
  "unary_encode number optimize =
     (let bytes_required = ceil_div (number + 1) 8;
          padding = 8 - (number mod 8) - 1;
          padding = (if padding = 8 then 0 else padding);
          encoded = replicate bytes_required (255::nat)
      in case update_last (\<lambda>byte. push_bit (padding + 1) byte AND 255) encoded of
           Inl e \<Rightarrow> Inl e
         | Inr encoded \<Rightarrow>
             if optimize then
               (if number = 0 then Inl PyException
                else
                  let encoded = (if padding = 7 then butlast encoded else encoded)
                  in case update_last (\<lambda>byte. push_bit 1 byte AND 255) encoded of
                       Inl e \<Rightarrow> Inl e
                     | Inr encoded \<Rightarrow> Inr (encoded, if padding < 7 then padding + 1 else 0))
             else Inr (encoded, padding))"


subsection \<open>eliasfanoencoder.py: preprocessing\<close>

definition delta_encode_since_min :: "int list \<Rightarrow> py_error + int list" where
  "delta_encode_since_min numbers =
     (case numbers of
        [] \<Rightarrow> Inl IndexError
      | num1 # rest \<Rightarrow>
          let encoded = map (\<lambda>number. number - num1) rest
          in if num1 = 0 then Inr ([0] @ numbers)
             else (case encoded of
                     [] \<Rightarrow> Inl IndexError
                   | e0 # _ \<Rightarrow>
                       let fano_1st_number = min (e0 - 1) (num1 - 1);
                           vb_number = num1 - fano_1st_number
                       in Inr ([vb_number, fano_1st_number] @ encoded)))"

definition delta_decode_since_min :: "int list \<Rightarrow> py_error + int list" where
  "delta_decode_since_min encoded =
     (case encoded of
        e0 # e1 # rest \<Rightarrow> let num1 = e0 + e1 in Inr ([num1] @ map (\<lambda>number. num1 + number) rest)
      | _ \<Rightarrow> Inl IndexError)"


subsection \<open>simple16encoder.py\<close>

text \<open>
  The dictionary \<open>S16_FORMATS\<close> has the keys 0..15, listed in decreasing order by
  \<open>S16_FORMAT_KEYS_REVERSED\<close>; a lookup with another key raises KeyError, which the
  model writes out where the key is computed from data (\<open>decode_batch\<close>).
  \<open>MASKS[x]\<close> is \<open>(1 << x) - 1\<close> for the keys 0..32.
\<close>

definition S16_FORMATS :: "nat \<Rightarrow> nat list" where
  "S16_FORMATS s16f =
     (if s16f = 15 then replicate 28 1
      else if s16f = 14 then replicate 7 2 @ replicate 14 1
      else if s16f = 13 then replicate 7 1 @ replicate 7 2 @ replicate 7 1
      else if s16f = 12 then replicate 14 1 @ replicate 7 2
      else if s16f = 11 then replicate 14 2
      else if s16f = 10 then [4] @ replicate 8 3
      else if s16f = 9 then [3] @ replicate 4 4 @ replicate 3 3
      else if s16f = 8 then replicate 7 4
      else if s16f = 7 then replicate 4 5 @ replicate 2 4
      else if s16f = 6 then replicate 2 4 @ replicate 4 5
      else if s16f = 5 then replicate 3 6 @ replicate 2 5
      else if s16f = 4 then replicate 2 5 @ replicate 3 6
      else if s16f = 3 then replicate 4 7
      else if s16f = 2 then [10] @ replicate 2 9
      else if s16f = 1 then replicate 2 14
      else if s16f = 0 then [28]
      else [])"

definition S16_FORMAT_KEYS_REVERSED :: "nat list" where
  "S16_FORMAT_KEYS_REVERSED = [15, 14, 13, 12, 11, 10, 9, 8, 7, 6, 5, 4, 3, 2, 1, 0]"

definition MASKS :: "nat \<Rightarrow> nat" where
  "MASKS x = push_bit x 1 - 1"

text \<open>
  \<open>find_optimal_format\<close>: the loop over the format keys; \<open>None\<close> is the implicit
  \<^verbatim>\<open>return None\<close> after the loop.
\<close>

fun find_optimal_format_loop :: "nat list \<Rightarrow> nat list \<Rightarrow> nat \<Rightarrow> (nat \<times> nat) option" where
  "find_optimal_format_loop [] numbers start = None"
| "find_optimal_format_loop (s16f # keys) numbers start =
     (let slots_size = length (S16_FORMATS s16f);
          slots_size = (if slots_size > length numbers - start then length numbers - start
                        else slots_size);
          slots = S16_FORMATS s16f
      in if (\<forall>i \<in> set [0..<slots_size]. MASKS (slots ! i) \<ge> numbers ! (start + i))
         then Some (s16f, length slots)
         else find_optimal_format_loop keys numbers start)"

definition find_optimal_format :: "nat list \<Rightarrow> nat \<Rightarrow> (nat \<times> nat) option" where
  "find_optimal_format numbers start = find_optimal_format_loop S16_FORMAT_KEYS_REVERSED numbers start"

text \<open>
  The inner loop of \<open>encode\<close> over \<open>to_encode\<close>, with the slots of the chosen format:
  \<^verbatim>\<open>bits_to_move -= S16_FORMATS[s16format][i]; encoded_batch += to_encode[i] << bits_to_move\<close>.
  Reading a slot past the end of the format raises IndexError, a negative shift count
  raises ValueError.
\<close>

fun s16_encode_batch :: "nat list \<Rightarrow> nat list \<Rightarrow> nat \<Rightarrow> nat \<Rightarrow> py_error + nat" where
  "s16_encode_batch [] slots bits_to_move encoded_batch = Inr encoded_batch"
| "s16_encode_batch (number # to_encode) [] bits_to_move encoded_batch = Inl IndexError"
| "s16_encode_batch (number # to_encode) (slot # slots) bits_to_move encoded_batch =
     (if bits_to_move < slot then Inl ValueError
      else let bits_to_move = bits_to_move - slot;
               shifted = push_bit bits_to_move number
           in s16_encode_batch to_encode slots bits_to_move (encoded_batch + shifted))"

lemma S16_FORMATS_nonempty: "s16f \<in> set S16_FORMAT_KEYS_REVERSED \<Longrightarrow> S16_FORMATS s16f \<noteq> []"
  by (auto simp: S16_FORMAT_KEYS_REVERSED_def S16_FORMATS_def)

lemma find_optimal_format_loop_Some:
  "find_optimal_format_loop keys numbers start = Some (s16f, n) \<Longrightarrow>
     s16f \<in> set keys \<and> n = length (S16_FORMATS s16f)
     \<and> (\<forall>i < min n (length numbers - start). numbers ! (start + i) \<le> MASKS (S16_FORMATS s16f ! i))"
  by (induction keys) (auto simp: Let_def split: if_splits)

lemma find_optimal_format_positive:
  "find_optimal_format numbers start = Some (s16f, n) \<Longrightarrow> 0 < n"
  unfolding find_optimal_format_def
  using find_optimal_format_loop_Some S16_FORMATS_nonempty by fastforce

text \<open>
  The loop \<^verbatim>\<open>while start < len(numbers)\<close> of \<open>encode\<close>. Unpacking the \<open>None\<close> returned by
  \<open>find_optimal_format\<close> raises TypeError.
\<close>

function s16_encode_loop :: "nat list \<Rightarrow> nat \<Rightarrow> nat list \<Rightarrow> py_error + nat list" where
  "s16_encode_loop numbers start encoded =
     (if start < length numbers then
        (case find_optimal_format numbers start of
           None \<Rightarrow> Inl TypeError
         | Some (s16format, numbers_to_encode) \<Rightarrow>
             let to_encode = take numbers_to_encode (drop start numbers)
             in (case s16_encode_batch to_encode (S16_FORMATS s16format) 28 (push_bit 28 s16format) of
                   Inl e \<Rightarrow> Inl e
                 | Inr encoded_batch \<Rightarrow>
                     s16_encode_loop numbers (start + numbers_to_encode) (encoded @ [encoded_batch])))
      else Inr encoded)"
  by pat_completeness auto
termination
  by (relation "measure (\<lambda>(numbers, start, encoded). length numbers - start)")
     (auto dest: find_optimal_format_positive)

definition s16_encode :: "nat list \<Rightarrow> py_error + nat list" where
  "s16_encode numbers = s16_encode_loop numbers 0 []"

fun s16_decode_batch_loop :: "nat \<Rightarrow> nat \<Rightarrow> nat list \<Rightarrow> py_error + nat list" where
  "s16_decode_batch_loop batch offset [] = Inr []"
| "s16_decode_batch_loop batch offset (bits_to_process # slots) =
     (let offset = offset + bits_to_process
      in if offset > 28 then Inl ValueError
         else (case s16_decode_batch_loop batch offset slots of
                 Inl e \<Rightarrow> Inl e
               | Inr numbers \<Rightarrow> Inr ((drop_bit (28 - offset) batch AND MASKS bits_to_process) # numbers)))"

definition s16_decode_batch :: "nat \<Rightarrow> nat \<Rightarrow> py_error + nat list" where
  "s16_decode_batch batch s16format =
     (if s16format \<in> set S16_FORMAT_KEYS_REVERSED
      then s16_decode_batch_loop batch 0 (S16_FORMATS s16format)
      else Inl KeyError)"

fun s16_decode_loop :: "nat list \<Rightarrow> py_error + nat list" where
  "s16_decode_loop [] = Inr []"
| "s16_decode_loop (batch # encoded) =
     (case s16_decode_batch batch (drop_bit 28 batch AND MASKS 5) of
        Inl e \<Rightarrow> Inl e
      | Inr decoded \<Rightarrow>
          (case s16_decode_loop encoded of
             Inl e \<Rightarrow> Inl e
           | Inr numbers \<Rightarrow> Inr (decoded @ numbers)))"

text \<open>
  \<^verbatim>\<open>while numbers and numbers[-1] is 0: del numbers[-1]\<close>; for the integer 0 the identity
  test of CPython coincides with equality.
\<close>

function strip_trailing_zeros :: "nat list \<Rightarrow> nat list" where
  "strip_trailing_zeros numbers =
     (if numbers \<noteq> [] \<and> last numbers = 0 then strip_trailing_zeros (butlast numbers)
      else numbers)"
  by pat_completeness auto
termination
  by (relation "measure length") auto

definition s16_decode :: "nat list \<Rightarrow> bool \<Rightarrow> py_error + nat list" where
  "s16_decode encoded remove_trailing_zeros =
     (case s16_decode_loop encoded of
        Inl e \<Rightarrow> Inl e
      | Inr numbers \<Rightarrow> Inr (if remove_trailing_zeros then strip_trailing_zeros numbers else numbers))"


subsection \<open>bitutils.py\<close>

text \<open>
  \<open>write_binary_in_iarray\<close> and \<open>write_binary_in_barray\<close> are the same text in the source
  up to three constants: the index shift (\<open>offset >> 5\<close> or \<open>offset >> 3\<close>), the bit mask
  (\<open>offset & 31\<close> or \<open>offset & 7\<close>) and the word size (32 or 8). The model writes the loop
  once, for the shift \<open>k\<close>, with mask \<open>2^k - 1\<close> and word size \<open>2^k\<close>, and instantiates it
  with 5 and 3. In both functions the clearing mask is \<^verbatim>\<open>0xFFFFFFFF >> (32 - shift)\<close>, and
  a negative shift count raises ValueError. An index past the end of the list raises
  IndexError. \<open>array[i] += v\<close> is an addition of unbounded integers (the array is a list).
  The result is the list after the call and the returned offset.
\<close>

lemma and_mask_less: "(offset::nat) AND (2 ^ k - 1) < 2 ^ k"
proof -
  have "offset AND (2 ^ k - 1) = take_bit k offset"
    by (simp add: take_bit_eq_mask mask_eq_exp_minus_1)
  then show ?thesis by (simp add: take_bit_eq_mod)
qed

function write_binary_in_array :: "nat \<Rightarrow> nat list \<Rightarrow> nat \<Rightarrow> nat \<Rightarrow> nat \<Rightarrow> py_error + (nat list \<times> nat)" where
  "write_binary_in_array k array offset number bits =
     (if bits > 0 then
        let array_index = drop_bit k offset;
            bit_index = offset AND (2 ^ k - 1);
            writable = 2 ^ k - bit_index;
            to_write = (if bits < writable then bits else writable);
            shift = (if bits < writable then writable - bits else bits - writable)
        in if array_index \<ge> length array then Inl IndexError
           else
             let array = (if writable < bits
                          then array[array_index := array ! array_index + drop_bit shift number]
                          else array[array_index := array ! array_index + push_bit shift number])
             in if shift > 32 then Inl ValueError
                else write_binary_in_array k array (offset + to_write)
                       (number AND drop_bit (32 - shift) 4294967295) (bits - to_write)
      else Inr (array, offset))"
  by pat_completeness auto
termination
proof (relation "measure (\<lambda>(k, array, offset, number, bits). bits)", goal_cases)
  case 1
  then show ?case by simp
next
  case (2 k array offset number bits array_index bit_index writable to_write shift array')
  have "bit_index < 2 ^ k" unfolding 2 by (rule and_mask_less)
  then have "0 < to_write" using 2 by simp
  then show ?case using 2 by simp
qed

declare write_binary_in_array.simps [simp del]

definition write_binary_in_iarray :: "nat list \<Rightarrow> nat \<Rightarrow> nat \<Rightarrow> nat \<Rightarrow> py_error + (nat list \<times> nat)" where
  "write_binary_in_iarray = write_binary_in_array 5"

definition write_binary_in_barray :: "nat list \<Rightarrow> nat \<Rightarrow> nat \<Rightarrow> nat \<Rightarrow> py_error + (nat list \<times> nat)" where
  "write_binary_in_barray = write_binary_in_array 3"

text \<open>
  \<^verbatim>\<open>to_shift = readable - bits; to_shift = to_shift * (to_shift > 0)\<close> is
  \<open>max(0, readable - bits)\<close>; \<^verbatim>\<open>bits -= readable; if bits > 0\<close> is the test
  \<open>bits > readable\<close>.
\<close>

definition read_binary_from_iarray :: "nat list \<Rightarrow> nat \<Rightarrow> nat \<Rightarrow> py_error + nat" where
  "read_binary_from_iarray array offset bits =
     (let array_index = drop_bit 5 offset;
          bit_index = offset AND 31;
          readable = 32 - bit_index
      in if array_index \<ge> length array then Inl IndexError
         else
           let extracted = array ! array_index AND drop_bit bit_index 4294967295;
               to_shift = (if readable > bits then readable - bits else 0);
               number = drop_bit to_shift extracted
           in if bits > readable then
                (let bits = bits - readable
                 in if array_index + 1 \<ge> length array then Inl IndexError
                    else if bits > 32 then Inl ValueError
                    else Inr (push_bit bits number + drop_bit (32 - bits) (array ! (array_index + 1))))
              else Inr number)"

function read_binary_from_barray_loop :: "nat list \<Rightarrow> nat \<Rightarrow> nat \<Rightarrow> nat \<Rightarrow> py_error + nat" where
  "read_binary_from_barray_loop array offset bits number =
     (if bits > 0 then
        let array_index = drop_bit 3 offset;
            bit_index = offset AND 7;
            readable = 8 - bit_index;
            to_read = (if bits < readable then bits else readable)
        in if array_index \<ge> length array then Inl IndexError
           else
             let extracted = array ! array_index AND drop_bit bit_index 255;
                 to_shift = (if readable > bits then readable - bits else 0);
                 shifted = drop_bit to_shift extracted;
                 number = push_bit to_read number + shifted
             in read_binary_from_barray_loop array (offset + to_read) (bits - to_read) number
      else Inr number)"
  by pat_completeness auto
termination
proof (relation "measure (\<lambda>(array, offset, bits, number). bits)", goal_cases)
  case 1
  then show ?case by simp
next
  case (2 array offset bits number array_index bit_index readable to_read extracted to_shift shifted number')
  have "offset AND (2 ^ 3 - 1) < 2 ^ 3" by (rule and_mask_less)
  then have "bit_index < 8" using 2 by simp
  then have "0 < to_read" using 2 by simp
  then show ?case using 2 by simp
qed

declare read_binary_from_barray_loop.simps [simp del]

definition read_binary_from_barray :: "nat list \<Rightarrow> nat \<Rightarrow> nat \<Rightarrow> py_error + nat" where
  "read_binary_from_barray array offset bits = read_binary_from_barray_loop array offset bits 0"


text \<open>
  The bit at position \<open>p\<close> of an array of \<open>2^k\<close>-bit words, bit 0 being the most
  significant bit of word 0.
\<close>

definition array_bit :: "nat \<Rightarrow> nat list \<Rightarrow> nat \<Rightarrow> bool" where
  "array_bit k array p = bit (array ! (p div 2 ^ k)) (2 ^ k - 1 - p mod 2 ^ k)"


subsection \<open>pforencoder.py\<close>

text \<open>
  \<open>POSSIBLES_B\<close> is \<^verbatim>\<open>[x for x in range(1, 33)]\<close>. \<open>estimate_encoded_size\<close> counts the
  numbers above \<open>MASKS[b]\<close> in a loop; the model counts them with a filter.
  \<open>__find_optimal_b\<close> starts from \<open>POSSIBLES_B[0]\<close> and runs over the remaining candidates,
  replacing the optimum only on a strictly smaller estimate.
\<close>

definition POSSIBLES_B :: "nat list" where
  "POSSIBLES_B = [1..<33]"

definition HEADER_SIZE :: nat where
  "HEADER_SIZE = 32"

definition B_HEADER_SIZE :: nat where
  "B_HEADER_SIZE = 5"

definition estimate_encoded_size :: "nat list \<Rightarrow> nat \<Rightarrow> nat" where
  "estimate_encoded_size numbers b =
     (let max_number = MASKS b;
          size = HEADER_SIZE + length numbers * b;
          exception_count = length (filter (\<lambda>number. number > max_number) numbers)
      in size + exception_count * 32)"

fun find_optimal_b_loop :: "nat list \<Rightarrow> nat list \<Rightarrow> nat \<Rightarrow> nat \<Rightarrow> nat" where
  "find_optimal_b_loop numbers [] optimal_b optimal_size = optimal_b"
| "find_optimal_b_loop numbers (current_b # bs) optimal_b optimal_size =
     (let current_size = estimate_encoded_size numbers current_b
      in if current_size < optimal_size
         then find_optimal_b_loop numbers bs current_b current_size
         else find_optimal_b_loop numbers bs optimal_b optimal_size)"

definition find_optimal_b :: "nat list \<Rightarrow> nat" where
  "find_optimal_b numbers =
     (let optimal_b = POSSIBLES_B ! 0;
          optimal_size = estimate_encoded_size numbers optimal_b
      in find_optimal_b_loop numbers (drop 1 POSSIBLES_B) optimal_b optimal_size)"

text \<open>
  The loop of \<open>encode\<close> over \<open>numbers\<close>, from index \<open>i\<close>: an exception stores its index and
  its high bits and keeps its \<open>b\<close> low bits; the number is written with \<open>b\<close> bits at
  \<open>offset\<close> (the offset returned by the write is not used, \<open>offset += b\<close>).
  \<^verbatim>\<open>int(math.ceil(len(numbers)/numbers_per_int))\<close> is the integer ceiling for every list
  that fits in memory: the quotient is either an integer or at least \<open>1/32\<close> away from
  the next one.
\<close>

fun pfor_encode_loop ::
  "nat \<Rightarrow> nat list \<Rightarrow> nat \<Rightarrow> nat list \<Rightarrow> nat \<Rightarrow> nat list \<Rightarrow> nat list
   \<Rightarrow> py_error + (nat list \<times> nat \<times> nat list \<times> nat list)" where
  "pfor_encode_loop b [] i encoded offset exceptions_indexes exceptions =
     Inr (encoded, offset, exceptions_indexes, exceptions)"
| "pfor_encode_loop b (number # rest) i encoded offset exceptions_indexes exceptions =
     (let is_exception = number > MASKS b;
          exceptions_indexes = (if is_exception then exceptions_indexes @ [i] else exceptions_indexes);
          exceptions = (if is_exception then exceptions @ [drop_bit b number] else exceptions);
          number = (if is_exception then number AND MASKS b else number)
      in case write_binary_in_iarray encoded offset number b of
           Inl e \<Rightarrow> Inl e
         | Inr (encoded, new_offset) \<Rightarrow>
             pfor_encode_loop b rest (i + 1) encoded (offset + b) exceptions_indexes exceptions)"

definition pfor_encode :: "nat list \<Rightarrow> py_error + nat list" where
  "pfor_encode numbers =
     (let b = find_optimal_b numbers;
          numbers_per_int = 32 div b;
          encoded_size = ceil_div (length numbers) numbers_per_int;
          encoded = replicate encoded_size 0
      in case pfor_encode_loop b numbers 0 encoded 0 [] [] of
           Inl e \<Rightarrow> Inl e
         | Inr (encoded, offset, exceptions_indexes, exceptions) \<Rightarrow>
             let used_ints = ceil_div offset 32;
                 encoded = take used_ints encoded;
                 encoded = [push_bit (32 - B_HEADER_SIZE) (b - 1) + length exceptions] @ encoded
             in (case s16_encode (exceptions_indexes @ exceptions) of
                   Inl e \<Rightarrow> Inl e
                 | Inr exception_encode \<Rightarrow> Inr (encoded @ exception_encode)))"

definition get_header :: "nat list \<Rightarrow> py_error + (nat \<times> nat)" where
  "get_header encoded =
     (let offset = 32 - B_HEADER_SIZE
      in if encoded = [] then Inl IndexError
         else Inr (drop_bit offset (encoded ! 0) + 1, encoded ! 0 AND MASKS offset))"

text \<open>
  \<open>__merge_exceptions\<close>: \<^verbatim>\<open>exceptions.pop(0)\<close> raises IndexError on the empty list,
  \<^verbatim>\<open>decoded[i] += exception\<close> raises IndexError past the end.
\<close>

fun merge_exceptions_loop :: "nat list \<Rightarrow> nat list \<Rightarrow> nat list \<Rightarrow> nat \<Rightarrow> py_error + nat list" where
  "merge_exceptions_loop decoded [] exceptions b = Inr decoded"
| "merge_exceptions_loop decoded (i # exceptions_indexes) [] b = Inl IndexError"
| "merge_exceptions_loop decoded (i # exceptions_indexes) (e # exceptions) b =
     (let exception = push_bit b e
      in if i \<ge> length decoded then Inl IndexError
         else merge_exceptions_loop (decoded[i := decoded ! i + exception]) exceptions_indexes exceptions b)"

definition merge_exceptions :: "nat list \<Rightarrow> nat list \<Rightarrow> nat \<Rightarrow> py_error + nat list" where
  "merge_exceptions decoded exceptions b =
     (let middle = drop_bit 1 (length exceptions);
          exceptions_indexes = take middle exceptions;
          exceptions = drop middle exceptions
      in merge_exceptions_loop decoded exceptions_indexes exceptions b)"

text \<open>
  The first phase of \<open>decode\<close>: \<open>nums\<close> reads of \<open>b\<close> bits, from \<open>offset\<close> on. After
  it \<open>offset\<close> is \<open>nums * b\<close>.
\<close>

fun pfor_decode_loop :: "nat list \<Rightarrow> nat \<Rightarrow> nat \<Rightarrow> nat \<Rightarrow> py_error + nat list" where
  "pfor_decode_loop encoded b 0 offset = Inr []"
| "pfor_decode_loop encoded b (Suc nums) offset =
     (case read_binary_from_iarray encoded offset b of
        Inl e \<Rightarrow> Inl e
      | Inr number \<Rightarrow>
          (case pfor_decode_loop encoded b nums (offset + b) of
             Inl e \<Rightarrow> Inl e
           | Inr decoded \<Rightarrow> Inr ([number] @ decoded)))"

definition pfor_decode :: "nat list \<Rightarrow> nat \<Rightarrow> py_error + nat list" where
  "pfor_decode encoded nums =
     (case get_header encoded of
        Inl e \<Rightarrow> Inl e
      | Inr (b, exceptions_count) \<Rightarrow>
          let encoded = drop 1 encoded
          in (case pfor_decode_loop encoded b nums 0 of
                Inl e \<Rightarrow> Inl e
              | Inr decoded \<Rightarrow>
                  let offset = nums * b
                  in if exceptions_count > 0 then
                       (let ints_readed = ceil_div offset 32;
                            exceptions = drop ints_readed encoded
                        in case s16_decode exceptions True of
                             Inl e \<Rightarrow> Inl e
                           | Inr exceptions \<Rightarrow>
                               let exceptions = take (push_bit 1 exceptions_count) exceptions
                               in merge_exceptions decoded exceptions b)
                     else Inr decoded))"

text \<open>
  The exception lists that the loop of \<open>encode\<close> builds, as functions of the input:
  the indexes of the numbers above \<open>MASKS[b]\<close> (counted from \<open>i\<close>) and their high parts
  \<open>number >> b\<close>.
\<close>

fun pfor_exception_indexes :: "nat \<Rightarrow> nat \<Rightarrow> nat list \<Rightarrow> nat list" where
  "pfor_exception_indexes b i [] = []"
| "pfor_exception_indexes b i (number # rest) =
     (if number > MASKS b then [i] else []) @ pfor_exception_indexes b (i + 1) rest"

definition pfor_exception_highs :: "nat \<Rightarrow> nat list \<Rightarrow> nat list" where
  "pfor_exception_highs b numbers = map (drop_bit b) (filter (\<lambda>number. number > MASKS b) numbers)"

text \<open>The data bits of a batch: the values at their slots, below \<open>bits_to_move\<close>.\<close>

fun s16_packed :: "nat list \<Rightarrow> nat list \<Rightarrow> nat \<Rightarrow> nat" where
  "s16_packed [] slots bits_to_move = 0"
| "s16_packed (number # to_encode) [] bits_to_move = 0"
| "s16_packed (number # to_encode) (slot # slots) bits_to_move =
     number * 2 ^ (bits_to_move - slot) + s16_packed to_encode slots (bits_to_move - slot)"

declare strip_trailing_zeros.simps [simp del]
declare s16_encode_loop.simps [simp del]


subsection \<open>vbencoder.py: encode and decode\<close>

text \<open>
  \<open>encode\<close>: the loop \<^verbatim>\<open>while True\<close> prepends \<^verbatim>\<open>number & 127\<close> and stops as soon as
  \<^verbatim>\<open>number < 128\<close> (at once for a negative number); then \<^verbatim>\<open>encoded[-1] += 128\<close>.
\<close>

function vb_encode_loop :: "int \<Rightarrow> nat list \<Rightarrow> nat list" where
  "vb_encode_loop number encoded =
     (let encoded = [nat (number AND 127)] @ encoded
      in if number < 128 then encoded
         else vb_encode_loop (drop_bit 7 number) encoded)"
  by pat_completeness auto
termination
  by (relation "measure (\<lambda>(number, encoded). nat number)") (auto simp: drop_bit_eq_div)

declare vb_encode_loop.simps [simp del]

definition vb_encode :: "int \<Rightarrow> nat list" where
  "vb_encode number =
     (let encoded = vb_encode_loop number []
      in encoded[length encoded - 1 := last encoded + 128])"

fun vb_decode_loop :: "nat list \<Rightarrow> nat \<Rightarrow> nat list \<Rightarrow> nat list" where
  "vb_decode_loop [] number numbers = numbers"
| "vb_decode_loop (byte # encoded) number numbers =
     (let number = push_bit 7 number + byte
      in if byte > 127 then vb_decode_loop encoded 0 (numbers @ [number - 128])
         else vb_decode_loop encoded number numbers)"

definition vb_decode :: "nat list \<Rightarrow> nat list" where
  "vb_decode encoded = vb_decode_loop encoded 0 []"


subsection \<open>unaryencoder.py: negative arguments and decode\<close>

text \<open>
  The Elias-Fano encoder passes gaps to \<open>encode\<close> that may be negative. For
  \<open>-8 \<le> number < 0\<close> the byte count \<^verbatim>\<open>int(math.ceil((number+1)/float(8)))\<close> is 0 and
  \<^verbatim>\<open>encoded[-1]\<close> raises IndexError; below, the byte count is negative and
  \<^verbatim>\<open>bytearray(bytes_required)\<close> raises ValueError.
\<close>

definition unary_encode_int :: "int \<Rightarrow> bool \<Rightarrow> py_error + (nat list \<times> nat)" where
  "unary_encode_int number optimize =
     (if number \<ge> 0 then unary_encode (nat number) optimize
      else if number \<ge> - 8 then Inl IndexError
      else Inl ValueError)"

text \<open>The dictionaries \<open>READ_MSB_MASKS\<close> and \<open>READ_SINCE_MASKS\<close>, with the keys 0..8.\<close>

definition READ_MSB_MASKS :: "nat list" where
  "READ_MSB_MASKS = [128, 64, 32, 16, 8, 4, 2, 1, 0]"

definition READ_SINCE_MASKS :: "nat list" where
  "READ_SINCE_MASKS = [255, 127, 63, 31, 15, 7, 3, 1, 0]"

text \<open>\<^verbatim>\<open>while encoded[byte_index] == 255: number += 8; byte_index += 1\<close>\<close>

function unary_decode_full_bytes :: "nat list \<Rightarrow> nat \<Rightarrow> nat \<Rightarrow> py_error + (nat \<times> nat)" where
  "unary_decode_full_bytes encoded number byte_index =
     (if byte_index \<ge> length encoded then Inl IndexError
      else if encoded ! byte_index = 255
      then unary_decode_full_bytes encoded (number + 8) (byte_index + 1)
      else Inr (number, byte_index))"
  by pat_completeness auto
termination
  by (relation "measure (\<lambda>(encoded, number, byte_index). length encoded - byte_index)") auto

declare unary_decode_full_bytes.simps [simp del]

text \<open>\<^verbatim>\<open>while readed & READ_MSB_MASKS[bit_index]: number += 1; bit_index += 1\<close>\<close>

function unary_decode_leading_ones :: "nat \<Rightarrow> nat \<Rightarrow> nat \<Rightarrow> py_error + (nat \<times> nat)" where
  "unary_decode_leading_ones readed number bit_index =
     (if bit_index > 8 then Inl KeyError
      else if readed AND READ_MSB_MASKS ! bit_index \<noteq> 0
      then unary_decode_leading_ones readed (number + 1) (bit_index + 1)
      else Inr (number, bit_index))"
  by pat_completeness auto
termination
  by (relation "measure (\<lambda>(readed, number, bit_index). 9 - bit_index)") auto

declare unary_decode_leading_ones.simps [simp del]

text \<open>The loop \<^verbatim>\<open>for _ in range(nums)\<close> of \<open>decode\<close>.\<close>

fun unary_decode_loop :: "nat list \<Rightarrow> nat \<Rightarrow> bool \<Rightarrow> nat \<Rightarrow> nat \<Rightarrow> nat list \<Rightarrow> py_error + nat list" where
  "unary_decode_loop encoded 0 is_optimized byte_index bit_index decoded = Inr decoded"
| "unary_decode_loop encoded (Suc nums) is_optimized byte_index bit_index decoded =
     (let number = (if is_optimized then 1 else 0)
      in if bit_index > 8 then Inl KeyError
         else if byte_index \<ge> length encoded then Inl IndexError
         else
           let read_mask = READ_SINCE_MASKS ! bit_index;
               readed = encoded ! byte_index AND read_mask
           in (case (if readed = read_mask
                     then (case unary_decode_full_bytes encoded (number + (8 - bit_index)) (byte_index + 1) of
                             Inl e \<Rightarrow> Inl e
                           | Inr (number, byte_index) \<Rightarrow> Inr (number, byte_index, encoded ! byte_index, 0))
                     else Inr (number, byte_index, readed, bit_index)) of
                 Inl e \<Rightarrow> Inl e
               | Inr (number, byte_index, readed, bit_index) \<Rightarrow>
                   (case unary_decode_leading_ones readed number bit_index of
                      Inl e \<Rightarrow> Inl e
                    | Inr (number, bit_index) \<Rightarrow>
                        let decoded = decoded @ [number];
                            bit_index = (bit_index + 1) AND 7;
                            byte_index = byte_index + (if bit_index = 0 then 1 else 0)
                        in unary_decode_loop encoded nums is_optimized byte_index bit_index decoded)))"

definition unary_decode :: "nat list \<Rightarrow> nat \<Rightarrow> bool \<Rightarrow> nat \<Rightarrow> py_error + nat list" where
  "unary_decode encoded nums is_optimized offset =
     unary_decode_loop encoded nums is_optimized (drop_bit 3 offset) (offset AND 7) []"


subsection \<open>bitbytearray: bitbyteutils.py and the class BitByteArray\<close>

text \<open>
  \<open>to_bytes\<close>: \<^verbatim>\<open>[(number >> ((i << 3)) & 255) for i in reversed(range(0, size))]\<close>.
\<close>

definition to_bytes :: "nat \<Rightarrow> nat \<Rightarrow> nat list" where
  "to_bytes sz number = map (\<lambda>i. drop_bit (push_bit 3 i) number AND 255) (rev [0..<sz])"

definition to_byte :: "nat \<Rightarrow> nat list" where
  "to_byte number = to_bytes 1 number"

definition to_left :: "nat \<Rightarrow> nat \<Rightarrow> nat" where
  "to_left byte places = push_bit places byte AND 255"

text \<open>
  An object of the class is its two attributes: the byte array \<open>__stream\<close> and
  \<open>__bit_pointer\<close>. A method is a function from the object before the call to the object
  after it, or to the exception raised.
\<close>

record bitbytearray =
  stream :: "nat list"
  bit_pointer :: nat

definition BitByteArray :: bitbytearray where
  "BitByteArray = \<lparr>stream = [], bit_pointer = 0\<rparr>"

definition bba_padding :: "bitbytearray \<Rightarrow> nat" where
  "bba_padding self =
     (let padding = 8 - int (bit_pointer self)
      in nat (if padding = 8 then 0 else padding))"

definition recompute_bit_pointer :: "nat \<Rightarrow> bitbytearray \<Rightarrow> py_error + bitbytearray" where
  "recompute_bit_pointer padding self =
     (case validate_padding (int padding) of
        Inl e \<Rightarrow> Inl e
      | Inr _ \<Rightarrow>
          if padding = 0 then Inr self
          else let offset = 8 - int padding
               in Inr (self\<lparr>bit_pointer := nat ((int (bit_pointer self) + offset) AND 7)\<rparr>))"

definition has_to_write_carried :: "nat \<Rightarrow> nat \<Rightarrow> bool" where
  "has_to_write_carried byte_padding bytearray_offset =
     (let to_write = int bytearray_offset - int byte_padding
      in to_write > 0)"

text \<open>
  \<open>append\<close>: \<^verbatim>\<open>self.__stream[-1] += to_last_byte\<close> raises IndexError on the empty array
  and ValueError when the sum is not a byte; \<^verbatim>\<open>to_left(element, 8 - offset)\<close> raises
  ValueError on a negative shift count.
\<close>

definition bba_append :: "nat \<Rightarrow> nat \<Rightarrow> bitbytearray \<Rightarrow> py_error + bitbytearray" where
  "bba_append element padding self =
     (case validate_padding (int padding) of
        Inl e \<Rightarrow> Inl e
      | Inr _ \<Rightarrow>
          let offset = bit_pointer self
          in if offset = 0
             then recompute_bit_pointer padding (self\<lparr>stream := stream self @ to_byte element\<rparr>)
             else
               let to_last_byte = drop_bit offset element
               in if stream self = [] then Inl IndexError
                  else if last (stream self) + to_last_byte > 255 then Inl ValueError
                  else if offset > 8 then Inl ValueError
                  else
                    let self = self\<lparr>stream := (stream self)[length (stream self) - 1 :=
                                                   last (stream self) + to_last_byte]\<rparr>;
                        carried = to_left element (8 - offset);
                        self = (if has_to_write_carried padding offset
                                then self\<lparr>stream := stream self @ to_byte carried\<rparr>
                                else self)
                    in recompute_bit_pointer padding self)"

text \<open>
  \<open>extend\<close>: the loop over the elements; the padding is passed on for the last element
  only.
\<close>

fun bba_extend_loop :: "nat list \<Rightarrow> nat \<Rightarrow> bitbytearray \<Rightarrow> py_error + bitbytearray" where
  "bba_extend_loop [] padding self = Inr self"
| "bba_extend_loop (element # elements) padding self =
     (let last_byte = (elements = []);
          padding_to_append = (if last_byte then padding else 0)
      in case bba_append element padding_to_append self of
           Inl e \<Rightarrow> Inl e
         | Inr self \<Rightarrow> bba_extend_loop elements padding self)"

definition bba_extend :: "nat list \<Rightarrow> nat \<Rightarrow> bitbytearray \<Rightarrow> py_error + bitbytearray" where
  "bba_extend elements padding self =
     (case validate_padding (int padding) of
        Inl e \<Rightarrow> Inl e
      | Inr _ \<Rightarrow> bba_extend_loop elements padding self)"


subsection \<open>eliasfanoencoder.py: encode and decode\<close>

text \<open>
  A Python index into a sequence of the given length: non-negative indices count from
  the start, negative ones from the end; \<open>None\<close> is IndexError.
\<close>

definition py_index :: "nat \<Rightarrow> int \<Rightarrow> nat option" where
  "py_index n i =
     (if 0 \<le> i \<and> i < int n then Some (nat i)
      else if - int n \<le> i \<and> i < 0 then Some (nat (int n + i))
      else None)"

definition BV_MASKS :: "nat list" where
  "BV_MASKS = [128, 64, 32, 16, 8, 4, 2, 1]"

text \<open>
  \<open>bv_encode\<close>: \<^verbatim>\<open>bytearray(int(math.ceil(float(max_number+1)/8)))\<close> raises ValueError for
  a negative size; the loop sets the bit of every number.
\<close>

fun bv_encode_loop :: "int list \<Rightarrow> nat list \<Rightarrow> py_error + nat list" where
  "bv_encode_loop [] encoded = Inr encoded"
| "bv_encode_loop (number # numbers) encoded =
     (let array_index = drop_bit 3 number;
          bit_index = number AND 7
      in case py_index (length encoded) array_index of
           None \<Rightarrow> Inl IndexError
         | Some k \<Rightarrow> bv_encode_loop numbers (encoded[k := encoded ! k OR BV_MASKS ! nat bit_index]))"

definition bv_encode :: "int list \<Rightarrow> py_error + (nat list \<times> nat)" where
  "bv_encode numbers =
     (if numbers = [] then Inl IndexError
      else
        let max_number = last numbers;
            sz = (max_number + 1 + 7) div 8
        in if sz < 0 then Inl ValueError
           else (case bv_encode_loop numbers (replicate (nat sz) 0) of
                   Inl e \<Rightarrow> Inl e
                 | Inr encoded \<Rightarrow>
                     let padding = 8 - ((max_number + 1) AND 7);
                         padding = padding * (if padding < 8 then 1 else 0)
                     in Inr (encoded, nat padding)))"

text \<open>\<open>bv_decode\<close>: the inner loop \<^verbatim>\<open>for readed_bit in range(bit_index, 8)\<close>.\<close>

fun bv_decode_bits :: "nat \<Rightarrow> nat list \<Rightarrow> nat list \<Rightarrow> nat \<Rightarrow> nat list \<times> nat" where
  "bv_decode_bits byte [] decoded number = (decoded, number)"
| "bv_decode_bits byte (readed_bit # bits) decoded number =
     bv_decode_bits byte bits
       (if byte AND BV_MASKS ! readed_bit \<noteq> 0 then decoded @ [number] else decoded)
       (number + 1)"

text \<open>The loop \<^verbatim>\<open>while number < max_number\<close>.\<close>

function bv_decode_loop :: "nat list \<Rightarrow> nat \<Rightarrow> nat \<Rightarrow> nat \<Rightarrow> nat \<Rightarrow> nat list \<Rightarrow> py_error + nat list" where
  "bv_decode_loop encoded max_number number array_index bit_index decoded =
     (if number < max_number then
        (if array_index \<ge> length encoded then Inl IndexError
         else if encoded ! array_index = 255
         then bv_decode_loop encoded max_number (number + 8) (array_index + 1) 0
                (decoded @ [number..<number + 8])
         else bv_decode_loop encoded max_number
                (snd (bv_decode_bits (encoded ! array_index) [bit_index..<8] decoded number))
                (array_index + 1) 0
                (fst (bv_decode_bits (encoded ! array_index) [bit_index..<8] decoded number)))
      else Inr decoded)"
  by pat_completeness auto
termination
  by (relation "measure (\<lambda>(encoded, max_number, number, array_index, bit_index, decoded).
                           length encoded - array_index)") auto

declare bv_decode_loop.simps [simp del]

definition bv_decode :: "nat list \<Rightarrow> nat \<Rightarrow> nat \<Rightarrow> py_error + nat list" where
  "bv_decode encoded nums offset =
     (let array_index = drop_bit 3 offset;
          bit_index = offset AND 7;
          max_number = push_bit 3 (length (drop array_index encoded))
      in case bv_decode_loop encoded max_number 0 array_index bit_index [] of
           Inl e \<Rightarrow> Inl e
         | Inr decoded \<Rightarrow> Inr (take nums decoded))"

text \<open>
  \<open>__encode_upper\<close>: the gaps of the upper numbers, each in unary (not optimized),
  appended to a new BitByteArray.
\<close>

fun encode_upper_loop :: "int list \<Rightarrow> bitbytearray \<Rightarrow> py_error + bitbytearray" where
  "encode_upper_loop [] upper_bbarray = Inr upper_bbarray"
| "encode_upper_loop (number # upper_gaps) upper_bbarray =
     (case unary_encode_int number False of
        Inl e \<Rightarrow> Inl e
      | Inr (uencode, padding) \<Rightarrow>
          (case bba_extend uencode padding upper_bbarray of
             Inl e \<Rightarrow> Inl e
           | Inr upper_bbarray \<Rightarrow> encode_upper_loop upper_gaps upper_bbarray))"

definition encode_upper :: "int list \<Rightarrow> py_error + bitbytearray" where
  "encode_upper upper_numbers =
     (case gaps_encode upper_numbers of
        Inl e \<Rightarrow> Inl e
      | Inr (upper_gaps, _) \<Rightarrow> encode_upper_loop upper_gaps BitByteArray)"

text \<open>
  \<open>__encode_lower\<close>: every lower number, shifted left by the padding, as
  \<^verbatim>\<open>int(math.ceil(l/float(8)))\<close> bytes.
\<close>

fun encode_lower_loop :: "nat list \<Rightarrow> nat \<Rightarrow> nat \<Rightarrow> bitbytearray \<Rightarrow> py_error + bitbytearray" where
  "encode_lower_loop [] l padding lower_bbarray = Inr lower_bbarray"
| "encode_lower_loop (number # lower_numbers) l padding lower_bbarray =
     (let number = push_bit padding number;
          number = to_bytes (ceil_div l 8) number
      in case bba_extend number padding lower_bbarray of
           Inl e \<Rightarrow> Inl e
         | Inr lower_bbarray \<Rightarrow> encode_lower_loop lower_numbers l padding lower_bbarray)"

definition encode_lower :: "nat list \<Rightarrow> nat \<Rightarrow> py_error + bitbytearray" where
  "encode_lower lower_numbers l =
     (let padding = 8 - l mod 8;
          padding = (if padding = 8 then 0 else padding)
      in encode_lower_loop lower_numbers l padding BitByteArray)"

definition merge_encodes :: "nat \<Rightarrow> bitbytearray \<Rightarrow> bitbytearray \<Rightarrow> py_error + (nat list \<times> nat)" where
  "merge_encodes l lower_encode upper_encode =
     (case bba_extend (stream upper_encode) (bba_padding upper_encode) lower_encode of
        Inl e \<Rightarrow> Inl e
      | Inr lower_encode \<Rightarrow>
          let lheader = to_byte l;
              padding = bba_padding lower_encode
          in Inr (lheader @ stream lower_encode, padding))"

text \<open>
  \<open>encode\<close>. The width \<^verbatim>\<open>l = int(math.ceil(math.log(delta, 2)))\<close> with
  \<^verbatim>\<open>delta = max_number/list_size\<close> is computed in floating point; the model takes the
  function \<open>ceil_log2\<close> that gives \<open>l\<close> from \<open>max_number\<close> and \<open>list_size\<close> as a parameter.
  On this path \<open>max_number \<ge> 4 * list_size\<close>, so \<open>delta \<ge> 4\<close> and \<open>l\<close> is not negative.
  \<open>MASKS[l]\<close> raises KeyError for \<open>l > 32\<close>. \<^verbatim>\<open>numbers.pop(0)\<close> and \<^verbatim>\<open>numbers[-1]\<close> raise
  IndexError on the empty list.
\<close>

definition ef_encode :: "(int \<Rightarrow> nat \<Rightarrow> nat) \<Rightarrow> int list \<Rightarrow> py_error + (nat list \<times> nat)" where
  "ef_encode ceil_log2 numbers =
     (if length numbers = 1 then Inr (vb_encode (numbers ! 0), 0)
      else
        (case delta_encode_since_min (sort numbers) of
           Inl e \<Rightarrow> Inl e
         | Inr [] \<Rightarrow> Inl IndexError
         | Inr (first_number # numbers) \<Rightarrow>
             if numbers = [] then Inl IndexError
             else
               let max_number = last numbers;
                   list_size = length numbers
               in if int list_size > drop_bit 2 max_number
                  then
                    (let encoded = vb_encode first_number @ [255]
                     in case bv_encode numbers of
                          Inl e \<Rightarrow> Inl e
                        | Inr (bvencode, padding) \<Rightarrow> Inr (encoded @ bvencode, padding))
                  else
                    let l = ceil_log2 max_number list_size
                    in if l > 32 then Inl KeyError
                       else
                         let mask = int (MASKS l);
                             lower_numbers = map (\<lambda>number. nat (number AND mask)) numbers;
                             upper_numbers = map (\<lambda>number. drop_bit l (number - (number AND mask))) numbers
                         in (case encode_upper upper_numbers of
                               Inl e \<Rightarrow> Inl e
                             | Inr upper_encode \<Rightarrow>
                                 (case encode_lower lower_numbers l of
                                    Inl e \<Rightarrow> Inl e
                                  | Inr lower_encode \<Rightarrow>
                                      (case merge_encodes l lower_encode upper_encode of
                                         Inl e \<Rightarrow> Inl e
                                       | Inr (merged, padding) \<Rightarrow>
                                           Inr (vb_encode first_number @ merged, padding))))))"

text \<open>The loop \<^verbatim>\<open>for _ in range(nums)\<close> of \<open>decode\<close>.\<close>

fun ef_decode_loop :: "nat list \<Rightarrow> nat \<Rightarrow> nat \<Rightarrow> nat \<Rightarrow> nat \<Rightarrow> nat \<Rightarrow> nat list \<Rightarrow> py_error + nat list" where
  "ef_decode_loop encoded l 0 lower_offset upper_offset delta decoded = Inr decoded"
| "ef_decode_loop encoded l (Suc nums) lower_offset upper_offset delta decoded =
     (case read_binary_from_barray encoded lower_offset l of
        Inl e \<Rightarrow> Inl e
      | Inr lower \<Rightarrow>
          (case unary_decode encoded 1 False upper_offset of
             Inl e \<Rightarrow> Inl e
           | Inr [] \<Rightarrow> Inl IndexError
           | Inr (upper # _) \<Rightarrow>
               let delta = delta + upper;
                   decoded = decoded @ [push_bit l delta + lower]
               in ef_decode_loop encoded l nums (lower_offset + l) (upper_offset + upper + 1) delta decoded))"

definition ef_decode :: "nat list \<Rightarrow> nat \<Rightarrow> py_error + int list" where
  "ef_decode encoded nums =
     (if nums = 1 then Inr (map int (vb_decode encoded))
      else
        let (first_number, offset) = vb_decode_number encoded 0;
            decoded = [first_number]
        in if drop_bit 3 offset \<ge> length encoded then Inl IndexError
           else
             let l = encoded ! drop_bit 3 offset;
                 offset = offset + 8;
                 lower_offset = offset;
                 upper_offset = offset + l * nums
             in if l = 255
                then (case bv_decode encoded nums offset of
                        Inl e \<Rightarrow> Inl e
                      | Inr bits \<Rightarrow> delta_decode_since_min (map int (decoded @ bits)))
                else (case ef_decode_loop encoded l nums lower_offset upper_offset 0 decoded of
                        Inl e \<Rightarrow> Inl e
                      | Inr decoded \<Rightarrow> delta_decode_since_min (map int decoded)))"

subsection \<open>bitpackingencoder.py\<close>

text \<open>
  \<^verbatim>\<open>int(math.floor(math.log(x, 2)))\<close> for \<open>x \<ge> 1\<close>: the number of halvings that lead to 1.
  For the numbers below \<open>2^32\<close> the floating-point quotient \<^verbatim>\<open>log(x)/log(2)\<close> has the same
  integer part as the exact logarithm. \<^verbatim>\<open>math.log(0, 2)\<close> raises ValueError, which the
  callers below write out.
\<close>

fun floor_log2 :: "nat \<Rightarrow> nat" where
  "floor_log2 x = (if x < 2 then 0 else floor_log2 (x div 2) + 1)"

declare floor_log2.simps [simp del]

text \<open>
  \<open>encode\<close>: \<^verbatim>\<open>sorted(numbers)[-1]\<close> raises IndexError on the empty list;
  \<^verbatim>\<open>bytearray(header + encoded)\<close> raises ValueError when an element is not a byte.
\<close>

fun bp_encode_loop :: "nat list \<Rightarrow> nat \<Rightarrow> nat list \<Rightarrow> nat \<Rightarrow> py_error + nat list" where
  "bp_encode_loop [] b encoded offset = Inr encoded"
| "bp_encode_loop (number # numbers) b encoded offset =
     (case write_binary_in_barray encoded offset number b of
        Inl e \<Rightarrow> Inl e
      | Inr (encoded, _) \<Rightarrow> bp_encode_loop numbers b encoded (offset + b))"

definition bp_encode :: "nat list \<Rightarrow> py_error + (nat list \<times> nat)" where
  "bp_encode numbers =
     (if numbers = [] then Inl IndexError
      else
        let max_number = last (sort numbers)
        in if max_number = 0 then Inl ValueError
           else
             let b = floor_log2 max_number + 1;
                 bits_required = b * length numbers;
                 bytes_required = ceil_div bits_required 8;
                 encoded = replicate bytes_required 0
             in (case bp_encode_loop numbers b encoded 0 of
                   Inl e \<Rightarrow> Inl e
                 | Inr encoded \<Rightarrow>
                     let header = vb_encode (int b - 1);
                         encoded = header @ encoded
                     in if \<exists>byte \<in> set encoded. byte > 255 then Inl ValueError
                        else
                          let padding = 8 - bits_required mod 8;
                              padding = (if padding = 8 then 0 else padding)
                          in Inr (encoded, padding)))"

text \<open>
  \<open>decode\<close>: the list comprehension
  \<^verbatim>\<open>[read_binary_from_barray(encoded, offset+(i*b), b) for i in range(0, nums)]\<close>.
\<close>

fun bp_decode_loop :: "nat list \<Rightarrow> nat \<Rightarrow> nat \<Rightarrow> nat list \<Rightarrow> py_error + nat list" where
  "bp_decode_loop encoded offset b [] = Inr []"
| "bp_decode_loop encoded offset b (i # indexes) =
     (case read_binary_from_barray encoded (offset + i * b) b of
        Inl e \<Rightarrow> Inl e
      | Inr number \<Rightarrow>
          (case bp_decode_loop encoded offset b indexes of
             Inl e \<Rightarrow> Inl e
           | Inr decoded \<Rightarrow> Inr (number # decoded)))"

definition bp_decode :: "nat list \<Rightarrow> nat \<Rightarrow> py_error + nat list" where
  "bp_decode encoded nums =
     (let (b, offset) = vb_decode_number encoded 0;
          b = b + 1
      in bp_decode_loop encoded offset b [0..<nums])"


subsection \<open>gammaencoder.py\<close>

text \<open>
  \<open>__to_vb\<close>: the number without its most significant bit, left-aligned in
  \<^verbatim>\<open>int(math.ceil(new_required_bits/float(8)))\<close> bytes.
\<close>

definition to_vb :: "nat \<Rightarrow> py_error + (nat list \<times> nat)" where
  "to_vb number =
     (if number = 0 then Inl ValueError
      else
        let required_bits = floor_log2 number + 1;
            number = number - 2 ^ (required_bits - 1);
            new_required_bits = required_bits - 1;
            required_bytes = ceil_div new_required_bits 8;
            padding = 8 - (new_required_bits AND 7);
            padding = (if padding = 8 then 0 else padding);
            number = push_bit padding number;
            encoded = to_bytes required_bytes number
        in Inr (encoded, padding))"

definition gamma_merge_encodes :: "nat list \<Rightarrow> nat \<Rightarrow> nat list \<Rightarrow> nat \<Rightarrow> py_error + (nat list \<times> nat)" where
  "gamma_merge_encodes unary_encode' unary_padding vb_encode' vb_padding =
     (case bba_extend unary_encode' unary_padding BitByteArray of
        Inl e \<Rightarrow> Inl e
      | Inr encoded \<Rightarrow>
          (case bba_extend vb_encode' vb_padding encoded of
             Inl e \<Rightarrow> Inl e
           | Inr encoded \<Rightarrow> Inr (stream encoded, bba_padding encoded)))"

definition gamma_encode :: "nat \<Rightarrow> py_error + (nat list \<times> nat)" where
  "gamma_encode number =
     (case to_vb number of
        Inl e \<Rightarrow> Inl e
      | Inr (vbencoded, vbpadding) \<Rightarrow>
          let sz = int (length vbencoded * 8) - int vbpadding
          in (case unary_encode_int sz False of
                Inl e \<Rightarrow> Inl e
              | Inr (uencoded, upadding) \<Rightarrow> gamma_merge_encodes uencoded upadding vbencoded vbpadding))"

text \<open>The loop \<^verbatim>\<open>for _ in range(0, nums)\<close> of \<open>decode\<close>.\<close>

fun gamma_decode_loop :: "nat list \<Rightarrow> nat \<Rightarrow> nat \<Rightarrow> nat list \<Rightarrow> py_error + nat list" where
  "gamma_decode_loop encoded 0 offset decoded = Inr decoded"
| "gamma_decode_loop encoded (Suc nums) offset decoded =
     (case unary_decode encoded 1 False offset of
        Inl e \<Rightarrow> Inl e
      | Inr [] \<Rightarrow> Inl IndexError
      | Inr (vb_size # _) \<Rightarrow>
          let offset = offset + vb_size + 1
          in (case read_binary_from_barray encoded offset vb_size of
                Inl e \<Rightarrow> Inl e
              | Inr number \<Rightarrow>
                  let number = number + push_bit vb_size 1;
                      decoded = decoded @ [number];
                      offset = offset + vb_size
                  in gamma_decode_loop encoded nums offset decoded))"

definition gamma_decode :: "nat list \<Rightarrow> nat \<Rightarrow> py_error + nat list" where
  "gamma_decode encoded nums = gamma_decode_loop encoded nums 0 []"


text \<open>
  The unary code of \<open>m\<close> ones and a terminating zero, as bytes: \<open>m div 8\<close> bytes 255 and a
  last byte with \<open>m mod 8\<close> leading ones.
\<close>

definition unary_bytes :: "nat \<Rightarrow> nat list" where
  "unary_bytes m = replicate (m div 8) 255 @ [push_bit (8 - m mod 8) 255 AND 255]"

text \<open>
  The invariant of a BitByteArray: the bit pointer is below 8, the stream holds bytes,
  and the bits of the last byte from the bit pointer on are 0.
\<close>

definition bba_wf :: "bitbytearray \<Rightarrow> bool" where
  "bba_wf self \<longleftrightarrow>
     bit_pointer self < 8 \<and> (\<forall>byte \<in> set (stream self). byte < 256)
     \<and> (bit_pointer self \<noteq> 0 \<longrightarrow>
          stream self \<noteq> [] \<and> 2 ^ (8 - bit_pointer self) dvd last (stream self))"

text \<open>The number of bits held by a BitByteArray.\<close>

definition bba_size :: "bitbytearray \<Rightarrow> nat" where
  "bba_size self = 8 * length (stream self) - bba_padding self"


section \<open>Properties\<close>

subsection \<open>Padding validation\<close>

text \<open>
  C7. The claim: \<open>validate_padding p\<close> raises for every \<open>p\<close> outside \<open>[0,7]\<close> and returns
  normally inside. The guard of the source is a disjunction that every integer satisfies,
  so the function returns normally on every input, for instance on \<open>8\<close> and on \<open>-1\<close>.
\<close>

theorem validate_padding_never_raises: "validate_padding p = Inr ()"
  unfolding validate_padding_def by auto


subsection \<open>Gaps\<close>

lemma gaps_decode_loop_eq:
  "numbers \<noteq> [] \<Longrightarrow>
   gaps_decode_loop numbers gaps =
     numbers @ map (\<lambda>i. last numbers + sum_list (take (Suc i) gaps)) [0..<length gaps]"
proof (induction gaps arbitrary: numbers)
  case Nil
  then show ?case by simp
next
  case (Cons gap gaps)
  have "gaps_decode_loop (numbers @ [gap + last numbers]) gaps =
        (numbers @ [gap + last numbers]) @
        map (\<lambda>i. last (numbers @ [gap + last numbers]) + sum_list (take (Suc i) gaps)) [0..<length gaps]"
    by (rule Cons.IH) simp
  then show ?case
    by (simp del: upt_Suc add: map_upt_Suc algebra_simps)
qed

lemma gaps_decode_loop_prefix_sums:
  "gaps_decode_loop [g] popped =
     map (\<lambda>i. sum_list (take (Suc i) (g # popped))) [0..<Suc (length popped)]"
  by (simp del: upt_Suc add: gaps_decode_loop_eq map_upt_Suc)

text \<open>
  C10. For a non-empty list \<open>g\<close>, \<open>decode(g)\<close> returns the prefix sums of \<open>g\<close> and leaves the
  caller's list without its first element; \<open>encode(g)\<close> leaves the caller's list as it
  was.
\<close>

theorem gaps_decode_pops_argument:
  assumes "g \<noteq> []"
  shows "gaps_decode g = Inr (map (\<lambda>i. sum_list (take (Suc i) g)) [0..<length g], tl g)
         \<and> (\<exists>encoded. gaps_encode g = Inr (encoded, g))"
proof -
  obtain g0 popped where g: "g = g0 # popped" using assms by (cases g) auto
  show ?thesis
    unfolding g gaps_decode_def gaps_encode_def
    by (simp del: upt_Suc add: gaps_decode_loop_prefix_sums)
qed

theorem gaps_decode_pops_argument_witness:
  "[1000, 1, 8, 991, 9] \<noteq> ([]::int list)
   \<and> gaps_decode [1000, 1, 8, 991, 9] = Inr ([1000, 1001, 1009, 2000, 2009], [1, 8, 991, 9])
   \<and> gaps_encode [1000, 1, 8, 991, 9] = Inr ([1000, -999, 7, 983, -982], [1000, 1, 8, 991, 9])"
  using gaps_decode_pops_argument[of "[1000, 1, 8, 991, 9]"]
  by (simp add: gaps_decode_def gaps_encode_def upt_rec)


subsection \<open>Variable-Byte: reading without a terminator\<close>

lemma byte_high_bit: "b < 256 \<Longrightarrow> bit (b::nat) 7 \<longleftrightarrow> b > 127"
proof -
  assume b: "b < 256"
  have "bit b 7 \<longleftrightarrow> odd (b div 128)" by (simp add: bit_iff_odd)
  moreover have "b div 128 = (if b > 127 then 1 else 0)" using b by auto
  ultimately show ?thesis by simp
qed

lemma vb_decode_number_loop_None:
  "\<forall>byte \<in> set bytes. \<not> byte > 127 \<Longrightarrow> vb_decode_number_loop number i bytes = None"
  by (induction bytes arbitrary: number i) (auto simp: Let_def)

text \<open>
  C8. When no byte from index \<open>offset div 8\<close> on has its high bit set, \<open>decode_number\<close>
  leaves its loop without returning and yields \<open>(0, offset)\<close>: no error is raised.
\<close>

theorem vb_decode_number_without_terminator:
  assumes "\<forall>byte \<in> set encoded. byte < 256"
    and "\<forall>i. offset div 8 \<le> i \<and> i < length encoded \<longrightarrow> \<not> bit (encoded ! i) 7"
  shows "vb_decode_number encoded offset = (0, offset)"
proof -
  have "\<forall>byte \<in> set (drop (offset div 8) encoded). \<not> byte > 127"
  proof
    fix byte assume "byte \<in> set (drop (offset div 8) encoded)"
    then obtain k where k: "k < length (drop (offset div 8) encoded)" "byte = drop (offset div 8) encoded ! k"
      by (auto simp: in_set_conv_nth)
    then have "byte = encoded ! (offset div 8 + k)" "offset div 8 + k < length encoded" by auto
    with assms show "\<not> byte > 127" using byte_high_bit by (metis le_add1 nth_mem)
  qed
  then show ?thesis
    by (simp add: vb_decode_number_def drop_bit_eq_div vb_decode_number_loop_None)
qed

theorem vb_decode_number_without_terminator_witness:
  "vb_decode_number [2, 172, 5, 100] 17 = (0, 17) \<and> \<not> bit (5::nat) 7 \<and> \<not> bit (100::nat) 7"
proof -
  have a: "\<forall>byte \<in> set [2, 172, 5, 100::nat]. byte < 256" by simp
  have b: "\<forall>i. (17::nat) div 8 \<le> i \<and> i < length [2, 172, 5, 100::nat] \<longrightarrow> \<not> bit ([2, 172, 5, 100::nat] ! i) 7"
  proof (intro allI impI)
    fix i :: nat assume "17 div 8 \<le> i \<and> i < length [2, 172, 5, 100::nat]"
    then have "i = 2 \<or> i = 3" by auto
    then show "\<not> bit ([2, 172, 5, 100::nat] ! i) 7" by (auto simp: bit_iff_odd)
  qed
  from vb_decode_number_without_terminator[OF a b] show ?thesis by (simp add: bit_iff_odd)
qed

subsection \<open>Unary size law\<close>

lemma update_last_length: "update_last f xs = Inr ys \<Longrightarrow> length ys = length xs"
  by (auto simp: update_last_def split: if_splits)

lemma update_last_nonempty:
  "encoded \<noteq> [] \<Longrightarrow> \<exists>encoded'. update_last f encoded = Inr encoded' \<and> length encoded' = length encoded"
  by (simp add: update_last_def)

text \<open>
  C6. Unoptimized unary encoding of \<open>n\<close> uses \<open>n + 1\<close> bits (bits of the byte list minus
  the padding); optimized encoding of \<open>n > 0\<close> uses \<open>n\<close> bits.
\<close>

theorem unary_encode_used_bits:
  "(\<exists>encoded padding. unary_encode n False = Inr (encoded, padding)
       \<and> int (8 * length encoded) - int padding = int n + 1)
   \<and> (n > 0 \<longrightarrow> (\<exists>encoded padding. unary_encode n True = Inr (encoded, padding)
       \<and> int (8 * length encoded) - int padding = int n))"
proof -
  define q r where "q = n div 8" and "r = n mod 8"
  have n: "n = 8 * q + r" and r: "r < 8" by (simp_all add: q_def r_def)
  have c: "ceil_div (n + 1) 8 = q + 1" unfolding ceil_div_def n using r by simp
  define padding where "padding = 8 - n mod 8 - 1"
  have p: "padding = 7 - r" "padding \<noteq> 8" by (simp_all add: padding_def r_def)
  obtain e1 where e1: "update_last (\<lambda>byte. push_bit (padding + 1) byte AND 255) (replicate (q + 1) 255) = Inr e1"
    and l1: "length e1 = q + 1"
    using update_last_nonempty[of "replicate (q + 1) 255"] by fastforce
  have first: "unary_encode n False = Inr (e1, padding)"
    unfolding unary_encode_def c Let_def padding_def[symmetric] using p e1 by simp
  have "int (8 * length e1) - int padding = int n + 1"
    using l1 p r n by simp
  moreover have "\<exists>encoded pad. unary_encode n True = Inr (encoded, pad)
       \<and> int (8 * length encoded) - int pad = int n" if pos: "n > 0"
  proof (cases "padding = 7")
    case True
    then have r0: "r = 0" using p r by simp
    then have q: "q > 0" using pos n by simp
    then have "butlast e1 \<noteq> []" using l1 by (cases e1; cases "tl e1") auto
    then obtain e2 where e2: "update_last (\<lambda>byte. push_bit 1 byte AND 255) (butlast e1) = Inr e2"
      and l2: "length e2 = length (butlast e1)"
      using update_last_nonempty by blast
    have "unary_encode n True = Inr (e2, 0)"
      unfolding unary_encode_def c Let_def padding_def[symmetric] using p e1 e2 True pos by simp
    moreover have "int (8 * length e2) - int 0 = int n" using l2 l1 r0 n by simp
    ultimately show ?thesis by blast
  next
    case False
    then have lt: "padding < 7" using p by simp
    have "e1 \<noteq> []" using l1 by auto
    then obtain e2 where e2: "update_last (\<lambda>byte. push_bit 1 byte AND 255) e1 = Inr e2"
      and l2: "length e2 = length e1"
      using update_last_nonempty by blast
    have "unary_encode n True = Inr (e2, padding + 1)"
      unfolding unary_encode_def c Let_def padding_def[symmetric] using p e1 e2 False lt pos by simp
    moreover have "int (8 * length e2) - int (padding + 1) = int n" using l2 l1 p r n lt by simp
    ultimately show ?thesis by blast
  qed
  ultimately show ?thesis using first by blast
qed

theorem unary_encode_used_bits_witness:
  "(0::nat) < 11
   \<and> (\<exists>encoded padding. unary_encode 11 True = Inr (encoded, padding)
          \<and> int (8 * length encoded) - int padding = 11)"
  using unary_encode_used_bits[of 11] by simp


subsection \<open>Elias-Fano preprocessing\<close>

text \<open>
  C3 as stated: the stream is \<open>[vb_prefix, fano_first, d[2], d[3], ...]\<close>, without \<open>d[1]\<close>.
  On \<open>[3, 5]\<close> the source returns \<open>[2, 1, 2]\<close>: the first tail delta \<open>d[1] = 2\<close> is kept.
\<close>

theorem delta_encode_since_min_stream_counterexample:
  "delta_encode_since_min [3, 5] = Inr [2, 1, 2]
   \<and> delta_encode_since_min [3, 5]
       \<noteq> Inr ([3 - min (5 - 3 - 1) (3 - 1), min (5 - 3 - 1) (3 - 1)] @ map (\<lambda>s. s - 3) (drop 2 [3, 5]))"
  by (simp add: delta_encode_since_min_def)

text \<open>
  C3, amended. For an input \<open>S\<close> of length at least 2 with \<open>lead = S[0] \<noteq> 0\<close> the stream
  is \<open>[vb_prefix, fano_first, d[1], d[2], ...]\<close> with \<open>d[i] = S[i] - S[0]\<close>,
  \<open>fano_first = min(d[1] - 1, lead - 1)\<close> and \<open>vb_prefix = lead - fano_first\<close>: the two
  numbers replace the lead, every tail delta is kept. When \<open>lead = 0\<close> the stream is
  \<open>[0]\<close> followed by \<open>S\<close>.
\<close>

theorem delta_encode_since_min_stream:
  assumes "length S \<ge> 2"
  shows "(S ! 0 \<noteq> 0 \<longrightarrow>
           delta_encode_since_min S =
             Inr ([S ! 0 - min (S ! 1 - S ! 0 - 1) (S ! 0 - 1), min (S ! 1 - S ! 0 - 1) (S ! 0 - 1)]
                  @ map (\<lambda>s. s - S ! 0) (tl S)))
       \<and> (S ! 0 = 0 \<longrightarrow> delta_encode_since_min S = Inr ([0] @ S))"
proof -
  obtain s0 s1 rest where S: "S = s0 # s1 # rest"
    using assms by (cases S; cases "tl S") auto
  show ?thesis unfolding S delta_encode_since_min_def by (simp add: Let_def)
qed


theorem delta_encode_since_min_stream_witness:
  "length [17, 19, 22, 25::int] \<ge> 2 \<and> [17, 19, 22, 25::int] ! 0 \<noteq> 0
   \<and> delta_encode_since_min [17, 19, 22, 25] = Inr [16, 1, 2, 5, 8]
   \<and> length [0, 5, 9::int] \<ge> 2 \<and> [0, 5, 9::int] ! 0 = 0
   \<and> delta_encode_since_min [0, 5, 9] = Inr [0, 0, 5, 9]"
  using delta_encode_since_min_stream[of "[17, 19, 22, 25]"]
        delta_encode_since_min_stream[of "[0, 5, 9]"]
  by simp

subsection \<open>Simple-16 is partial\<close>

lemma S16_FORMATS_facts:
  "s16f \<in> set S16_FORMAT_KEYS_REVERSED \<Longrightarrow>
     S16_FORMATS s16f \<noteq> [] \<and> sum_list (S16_FORMATS s16f) = 28
     \<and> (\<forall>w \<in> set (S16_FORMATS s16f). w \<le> 28)"
  by (auto simp: S16_FORMAT_KEYS_REVERSED_def S16_FORMATS_def sum_list_replicate)

lemma MASKS_eq: "MASKS x = 2 ^ x - 1"
  by (simp add: MASKS_def push_bit_eq_mult)

lemma MASKS_less: "w \<le> 28 \<Longrightarrow> MASKS w < 2 ^ 28"
proof -
  assume "w \<le> 28"
  then have "(2::nat) ^ w \<le> 2 ^ 28" by (rule power_increasing) simp
  then show ?thesis by (simp add: MASKS_eq)
qed

lemma find_optimal_format_loop_big:
  assumes "set keys \<subseteq> set S16_FORMAT_KEYS_REVERSED" "start < length numbers" "numbers ! start \<ge> 2 ^ 28"
  shows "find_optimal_format_loop keys numbers start = None"
  using assms(1)
proof (induction keys)
  case Nil
  then show ?case by simp
next
  case (Cons s16f keys)
  then have k: "s16f \<in> set S16_FORMAT_KEYS_REVERSED" by simp
  let ?slots = "S16_FORMATS s16f"
  have ne: "?slots \<noteq> []" and w: "?slots ! 0 \<le> 28"
    using S16_FORMATS_facts[OF k] by (auto simp: neq_Nil_conv)
  define slots_size where
    "slots_size = (if length ?slots > length numbers - start then length numbers - start else length ?slots)"
  have pos: "0 < slots_size" using ne assms(2) by (simp add: slots_size_def)
  have "\<not> MASKS (?slots ! 0) \<ge> numbers ! (start + 0)"
    using MASKS_less[OF w] assms(3) by simp
  then have "\<not> (\<forall>i \<in> set [0..<slots_size]. MASKS (?slots ! i) \<ge> numbers ! (start + i))"
    using pos by (metis atLeastLessThan_iff le0 set_upt)
  then show ?case using Cons by (simp add: Let_def slots_size_def[symmetric])
qed

lemma find_optimal_format_loop_small:
  assumes "0 \<in> set keys" "start < length numbers" "numbers ! start < 2 ^ 28"
  shows "\<exists>r. find_optimal_format_loop keys numbers start = Some r"
  using assms(1)
proof (induction keys)
  case Nil
  then show ?case by simp
next
  case (Cons s16f keys)
  show ?case
  proof (cases "s16f = 0")
    case True
    have "MASKS 28 \<ge> numbers ! start" using assms(3) by (simp add: MASKS_eq)
    then show ?thesis using True assms(2) by (simp add: S16_FORMATS_def Let_def)
  next
    case False
    then have "0 \<in> set keys" using Cons.prems by simp
    then show ?thesis using Cons.IH by (simp add: Let_def)
  qed
qed

lemma s16_encode_batch_succeeds:
  "length to_encode \<le> length slots \<Longrightarrow> sum_list slots \<le> bits_to_move \<Longrightarrow>
   \<exists>encoded_batch. s16_encode_batch to_encode slots bits_to_move acc = Inr encoded_batch"
proof (induction to_encode slots bits_to_move acc rule: s16_encode_batch.induct)
  case (1 slots bits_to_move encoded_batch)
  then show ?case by simp
next
  case (2 number to_encode bits_to_move encoded_batch)
  then show ?case by simp
next
  case (3 number to_encode slot slots bits_to_move encoded_batch)
  then show ?case by (simp add: Let_def)
qed

lemma find_optimal_format_Some:
  assumes "find_optimal_format numbers start = Some (s16f, n)"
  shows "s16f \<in> set S16_FORMAT_KEYS_REVERSED" "n = length (S16_FORMATS s16f)" "0 < n"
    "\<forall>i < min n (length numbers - start). numbers ! (start + i) \<le> MASKS (S16_FORMATS s16f ! i)"
  using find_optimal_format_loop_Some[OF assms[unfolded find_optimal_format_def]]
    find_optimal_format_positive[OF assms] by auto

lemma s16_encode_batch_of_format:
  assumes "find_optimal_format numbers start = Some (s16f, n)"
  shows "\<exists>encoded_batch. s16_encode_batch (take n (drop start numbers)) (S16_FORMATS s16f) 28 acc = Inr encoded_batch"
proof (rule s16_encode_batch_succeeds)
  show "length (take n (drop start numbers)) \<le> length (S16_FORMATS s16f)"
    using find_optimal_format_Some(2)[OF assms] by simp
  show "sum_list (S16_FORMATS s16f) \<le> 28"
    using S16_FORMATS_facts[OF find_optimal_format_Some(1)[OF assms]] by simp
qed

lemma s16_encode_loop_big:
  "\<exists>p. start \<le> p \<and> p < length numbers \<and> numbers ! p \<ge> 2 ^ 28 \<Longrightarrow>
   s16_encode_loop numbers start encoded = Inl TypeError"
proof (induction numbers start encoded rule: s16_encode_loop.induct)
  case (1 numbers start encoded)
  then obtain p where p: "start \<le> p" "p < length numbers" "numbers ! p \<ge> 2 ^ 28" by blast
  then have lt: "start < length numbers" by simp
  show ?case
  proof (cases "find_optimal_format numbers start")
    case None
    then show ?thesis using lt by (subst s16_encode_loop.simps) simp
  next
    case (Some r)
    obtain s16f n where r: "r = (s16f, n)" by (cases r)
    note f = Some[unfolded r]
    obtain b where b: "s16_encode_batch (take n (drop start numbers)) (S16_FORMATS s16f) 28 (push_bit 28 s16f) = Inr b"
      using s16_encode_batch_of_format[OF f] by blast
    have "start + n \<le> p"
    proof (rule ccontr)
      assume "\<not> start + n \<le> p"
      then have "p - start < n" "p - start < length numbers - start" using p(1,2) by linarith+
      then have "p - start < min n (length numbers - start)" by simp
      then have "numbers ! (start + (p - start)) \<le> MASKS (S16_FORMATS s16f ! (p - start))"
        using find_optimal_format_Some(4)[OF f] by blast
      moreover have "S16_FORMATS s16f ! (p - start) \<le> 28"
        using S16_FORMATS_facts[OF find_optimal_format_Some(1)[OF f]] find_optimal_format_Some(2)[OF f]
          \<open>p - start < min n (length numbers - start)\<close> by simp
      ultimately show False using MASKS_less p by fastforce
    qed
    then have "\<exists>p. start + n \<le> p \<and> p < length numbers \<and> numbers ! p \<ge> 2 ^ 28" using p by blast
    from "1.IH"[OF lt f refl refl b this]
    show ?thesis using lt f b by (subst s16_encode_loop.simps) simp
  qed
qed

lemma s16_encode_loop_small:
  "\<forall>x \<in> set numbers. x < 2 ^ 28 \<Longrightarrow> \<exists>ys. s16_encode_loop numbers start encoded = Inr ys"
proof (induction numbers start encoded rule: s16_encode_loop.induct)
  case (1 numbers start encoded)
  show ?case
  proof (cases "start < length numbers")
    case False
    then show ?thesis by (subst s16_encode_loop.simps) simp
  next
    case lt: True
    then have "numbers ! start < 2 ^ 28" using "1.prems" by simp
    then obtain r where "find_optimal_format numbers start = Some r"
      using find_optimal_format_loop_small[of S16_FORMAT_KEYS_REVERSED start numbers] lt
      by (auto simp: find_optimal_format_def S16_FORMAT_KEYS_REVERSED_def)
    then obtain s16f n where f: "find_optimal_format numbers start = Some (s16f, n)" by (cases r) auto
    obtain b where b: "s16_encode_batch (take n (drop start numbers)) (S16_FORMATS s16f) 28 (push_bit 28 s16f) = Inr b"
      using s16_encode_batch_of_format[OF f] by blast
    from "1.IH"[OF lt f refl refl b "1.prems"]
    show ?thesis using lt f b by (subst s16_encode_loop.simps) simp
  qed
qed

text \<open>
  C9. A list with an element of at least \<open>2^28\<close> makes \<open>encode\<close> fail (at that element
  \<open>find_optimal_format\<close> finds no format and returns \<open>None\<close>, whose unpacking raises);
  when all elements are below \<open>2^28\<close> a format is found at every position and \<open>encode\<close>
  returns.
\<close>

theorem s16_encode_partial:
  "((\<exists>x \<in> set numbers. x \<ge> 2 ^ 28) \<longrightarrow> s16_encode numbers = Inl TypeError)
   \<and> ((\<forall>x \<in> set numbers. x < 2 ^ 28) \<longrightarrow> (\<exists>encoded. s16_encode numbers = Inr encoded))
   \<and> (\<forall>start < length numbers.
         (numbers ! start \<ge> 2 ^ 28 \<longrightarrow> find_optimal_format numbers start = None)
       \<and> (numbers ! start < 2 ^ 28 \<longrightarrow> (\<exists>s16f n. find_optimal_format numbers start = Some (s16f, n))))"
proof (intro conjI impI allI)
  assume "\<exists>x \<in> set numbers. x \<ge> 2 ^ 28"
  then have "\<exists>p. 0 \<le> p \<and> p < length numbers \<and> numbers ! p \<ge> 2 ^ 28"
    by (auto simp: in_set_conv_nth)
  then show "s16_encode numbers = Inl TypeError"
    unfolding s16_encode_def by (rule s16_encode_loop_big)
next
  assume "\<forall>x \<in> set numbers. x < 2 ^ 28"
  then show "\<exists>encoded. s16_encode numbers = Inr encoded"
    unfolding s16_encode_def by (rule s16_encode_loop_small)
next
  fix start assume "start < length numbers" "numbers ! start \<ge> 2 ^ 28"
  then show "find_optimal_format numbers start = None"
    unfolding find_optimal_format_def by (intro find_optimal_format_loop_big) simp_all
next
  fix start assume "start < length numbers" "numbers ! start < 2 ^ 28"
  then show "\<exists>s16f n. find_optimal_format numbers start = Some (s16f, n)"
    using find_optimal_format_loop_small[of S16_FORMAT_KEYS_REVERSED start numbers]
    by (auto simp: find_optimal_format_def S16_FORMAT_KEYS_REVERSED_def)
qed

theorem s16_encode_partial_witness:
  "s16_encode [1, 1073741824] = Inl TypeError
   \<and> find_optimal_format [1, 1073741824] 1 = None
   \<and> (\<exists>encoded. s16_encode [1, 5, 1000, 3, 0, 0] = Inr encoded)
   \<and> (\<exists>s16f n. find_optimal_format [1, 5, 1000, 3, 0, 0] 2 = Some (s16f, n))"
  using s16_encode_partial[of "[1, 1073741824]"] s16_encode_partial[of "[1, 5, 1000, 3, 0, 0]"]
  by simp

subsection \<open>Bit-level write and read\<close>

lemma nat_less_exp_iff_bit: "(a::nat) < 2 ^ n \<longleftrightarrow> (\<forall>j\<ge>n. \<not> bit a j)"
proof
  assume "a < 2 ^ n"
  then have "take_bit n a = a" by (rule take_bit_nat_eq_self)
  then show "\<forall>j\<ge>n. \<not> bit a j"
    by (metis bit_take_bit_iff not_le)
next
  assume h: "\<forall>j\<ge>n. \<not> bit a j"
  have "take_bit n a = a"
    by (rule bit_eqI) (use h in \<open>auto simp: bit_take_bit_iff not_le[symmetric]\<close>)
  then show "a < 2 ^ n" by (simp add: take_bit_nat_eq_self_iff)
qed

lemma add_into_zero_bits:
  fixes word x :: nat
  assumes z: "\<And>j. s \<le> j \<Longrightarrow> j < s + n \<Longrightarrow> \<not> bit word j" and x: "x < 2 ^ n"
  shows "bit (word + push_bit s x) j \<longleftrightarrow> (if s \<le> j \<and> j < s + n then bit x (j - s) else bit word j)"
proof -
  have xb: "\<And>i. bit x i \<Longrightarrow> i < n"
    using x nat_less_exp_iff_bit[of x n] by (meson not_le)
  have disj: "\<And>i. \<not> bit word i \<or> \<not> bit (push_bit s x) i"
  proof -
    fix i
    show "\<not> bit word i \<or> \<not> bit (push_bit s x) i"
    proof (cases "bit (push_bit s x) i")
      case True
      then have "s \<le> i" "bit x (i - s)" by (auto simp: bit_push_bit_iff)
      then have "i < s + n" using xb[of "i - s"] by simp
      then show ?thesis using z \<open>s \<le> i\<close> by blast
    qed simp
  qed
  have "bit (word + push_bit s x) j \<longleftrightarrow> bit word j \<or> bit (push_bit s x) j"
    by (rule bit_disjunctive_add_iff) (rule disj)
  also have "\<dots> \<longleftrightarrow> (if s \<le> j \<and> j < s + n then bit x (j - s) else bit word j)"
    using z[of j] xb[of "j - s"] by (auto simp: bit_push_bit_iff)
  finally show ?thesis .
qed

lemma add_into_zero_bits_bound:
  fixes word x :: nat
  assumes z: "\<And>j. s \<le> j \<Longrightarrow> j < s + n \<Longrightarrow> \<not> bit word j" and x: "x < 2 ^ n"
    and w: "word < 2 ^ W" and le: "s + n \<le> W"
  shows "word + push_bit s x < 2 ^ W"
proof -
  have xb: "\<And>i. bit x i \<Longrightarrow> i < n"
    using x nat_less_exp_iff_bit[of x n] by (meson not_le)
  have wb: "\<And>i. bit word i \<Longrightarrow> i < W"
    using w nat_less_exp_iff_bit[of word W] by (meson not_le)
  show ?thesis
    unfolding nat_less_exp_iff_bit
  proof (intro allI impI)
    fix j assume "W \<le> j"
    then show "\<not> bit (word + push_bit s x) j"
      using add_into_zero_bits[where j = j and word = word, OF z x] wb[of j] le by auto
  qed
qed

lemma array_bit_update:
  "idx < length array \<Longrightarrow>
   array_bit k (array[idx := v]) p =
     (if p div 2 ^ k = idx then bit v (2 ^ k - 1 - p mod 2 ^ k) else array_bit k array p)"
  by (simp add: array_bit_def)

lemma and_mask_mod: "(offset::nat) AND (2 ^ k - 1) = offset mod 2 ^ k"
proof -
  have "offset AND (2 ^ k - 1) = take_bit k offset"
    by (simp add: take_bit_eq_mask mask_eq_exp_minus_1)
  then show ?thesis by (simp add: take_bit_eq_mod)
qed

lemma and_clear_mask: "shift \<le> 32 \<Longrightarrow> (number::nat) AND drop_bit (32 - shift) 4294967295 = take_bit shift number"
proof -
  assume s: "shift \<le> 32"
  have m: "(4294967295::nat) = mask 32" by (simp add: mask_eq_exp_minus_1)
  have "drop_bit (32 - shift) (mask 32 :: nat) = mask (32 - (32 - shift))"
    by (rule drop_bit_mask_eq)
  moreover have "32 - (32 - shift) = shift" using s by simp
  ultimately have "drop_bit (32 - shift) (4294967295::nat) = mask shift"
    unfolding m by simp
  then show ?thesis by (simp only: take_bit_eq_mask)
qed

lemma write_binary_in_array_0: "write_binary_in_array k array offset number 0 = Inr (array, offset)"
  by (subst write_binary_in_array.simps) simp

lemma and_clear_mask_diff:
  "wr \<le> bits \<Longrightarrow> bits - wr \<le> 32 \<Longrightarrow>
   (number::nat) AND drop_bit (32 + wr - bits) 4294967295 = take_bit (bits - wr) number"
  using and_clear_mask[of "bits - wr" number] by simp

lemma and_mask_mod_Suc: "(offset::nat) AND (2 ^ k - Suc 0) = offset mod 2 ^ k"
  using and_mask_mod[of offset k] by simp

lemma write_binary_in_array_step_aux:
  assumes "bits > 0" and idx: "idx = drop_bit k offset" and bi: "bi = offset AND (2 ^ k - 1)"
    and wr: "wr = 2 ^ k - bi" and pos: "0 < wr"
  shows "write_binary_in_array k array offset number bits =
     (if idx \<ge> length array then Inl IndexError
      else if bits \<le> wr then
        (if wr - bits > 32 then Inl ValueError
         else Inr (array[idx := array ! idx + push_bit (wr - bits) number], offset + bits))
      else
        (if bits - wr > 32 then Inl ValueError
         else write_binary_in_array k (array[idx := array ! idx + drop_bit (bits - wr) number])
                (offset + wr) (take_bit (bits - wr) number) (bits - wr)))"
  apply (subst write_binary_in_array.simps)
  unfolding Let_def idx[symmetric] bi[symmetric] wr[symmetric]
  using assms(1) pos
  by (auto simp: write_binary_in_array_0 and_clear_mask and_clear_mask_diff)

lemma write_binary_in_array_step:
  assumes "bits > 0"
  shows "write_binary_in_array k array offset number bits =
     (if offset div 2 ^ k \<ge> length array then Inl IndexError
      else if bits \<le> 2 ^ k - offset mod 2 ^ k then
        (if 2 ^ k - offset mod 2 ^ k - bits > 32 then Inl ValueError
         else Inr (array[offset div 2 ^ k :=
                      array ! (offset div 2 ^ k) + push_bit (2 ^ k - offset mod 2 ^ k - bits) number],
                   offset + bits))
      else
        (if bits - (2 ^ k - offset mod 2 ^ k) > 32 then Inl ValueError
         else write_binary_in_array k
                (array[offset div 2 ^ k :=
                   array ! (offset div 2 ^ k) + drop_bit (bits - (2 ^ k - offset mod 2 ^ k)) number])
                (offset + (2 ^ k - offset mod 2 ^ k))
                (take_bit (bits - (2 ^ k - offset mod 2 ^ k)) number)
                (bits - (2 ^ k - offset mod 2 ^ k))))"
  by (rule write_binary_in_array_step_aux[OF assms])
     (simp_all add: drop_bit_eq_div and_mask_mod_Suc)


lemma div_eq_of_bounds: "(idx::nat) * W \<le> p \<Longrightarrow> p < idx * W + W \<Longrightarrow> p div W = idx"
  by (metis add.commute div_nat_eqI mult.commute mult_Suc_right)

lemma write_binary_in_array_bits:
  assumes k: "(2::nat) ^ k \<le> 32"
  shows "\<lbrakk>\<forall>w\<in>set array. w < 2 ^ (2 ^ k); offset + bits \<le> 2 ^ k * length array;
          \<forall>p. offset \<le> p \<and> p < offset + bits \<longrightarrow> \<not> array_bit k array p;
          number < 2 ^ bits; bits \<le> 32 + (2 ^ k - offset mod 2 ^ k)\<rbrakk> \<Longrightarrow>
     \<exists>array'. write_binary_in_array k array offset number bits = Inr (array', offset + bits)
        \<and> length array' = length array \<and> (\<forall>w\<in>set array'. w < 2 ^ (2 ^ k))
        \<and> (\<forall>p. array_bit k array' p =
               (if offset \<le> p \<and> p < offset + bits then bit number (offset + bits - 1 - p)
                else array_bit k array p))"
proof (induction bits arbitrary: array offset number rule: less_induct)
  case (less bits)
  define W where "W = (2::nat) ^ k"
  have Wpos: "0 < W" and W32: "W \<le> 32" using k by (simp_all add: W_def)
  note prems = less.prems[folded W_def]
  have ab: "\<And>a p. array_bit k a p = bit (a ! (p div W)) (W - 1 - p mod W)"
    by (simp add: array_bit_def W_def)
  show ?case
  proof (cases "bits = 0")
    case True
    then show ?thesis using less.prems(1) by (auto simp: write_binary_in_array_0)
  next
    case False
    then have bpos: "0 < bits" by simp
    define idx where "idx = offset div W"
    define bi where "bi = offset mod W"
    define wr where "wr = W - bi"
    define X where "X = idx * W"
    have off: "offset = X + bi" and bi: "bi < W"
      using Wpos by (simp_all add: X_def idx_def bi_def)
    have wr: "0 < wr" "wr \<le> W" "wr + bi = W" using bi by (simp_all add: wr_def)
    have "offset < W * length array" using prems(2) bpos by simp
    then have idx_lt: "idx < length array"
      unfolding idx_def by (simp add: less_mult_imp_div_less mult.commute)
    define word where "word = array ! idx"
    have word_lt: "word < 2 ^ W" using prems(1) idx_lt by (simp add: word_def)
    have in_word: "\<And>r. r < W \<Longrightarrow> (X + r) div W = idx \<and> (X + r) mod W = r"
      using Wpos by (simp add: X_def)
    have zero_word: "\<not> bit word j" if "wr - min bits wr \<le> j" "j < wr" for j
    proof -
      define p where "p = X + (W - 1 - j)"
      have r: "W - 1 - j < W" using Wpos by simp
      have "offset \<le> p \<and> p < offset + bits"
        using that wr bi by (auto simp: p_def off min_def split: if_splits)
      then have "\<not> array_bit k array p" using prems(3) by blast
      moreover have "p div W = idx" "p mod W = W - 1 - j"
        using in_word[OF r] by (simp_all add: p_def)
      moreover have "W - 1 - (W - 1 - j) = j" using that wr by simp
      ultimately show ?thesis by (simp add: ab word_def)
    qed
    show ?thesis
    proof (cases "bits \<le> wr")
      case True
      define s where "s = wr - bits"
      define v where "v = word + push_bit s number"
      define array' where "array' = array[idx := v]"
      have z: "\<And>j. s \<le> j \<Longrightarrow> j < s + bits \<Longrightarrow> \<not> bit word j"
        using zero_word True by (simp add: s_def min_def)
      have vbits: "\<And>j. bit v j \<longleftrightarrow> (if s \<le> j \<and> j < s + bits then bit number (j - s) else bit word j)"
        unfolding v_def by (rule add_into_zero_bits[OF z prems(4)])
      have sb: "s + bits \<le> W" using True wr(2) unfolding s_def by linarith
      have vlt: "v < 2 ^ W"
        unfolding v_def by (rule add_into_zero_bits_bound[OF z prems(4) word_lt sb])
      have res: "write_binary_in_array k array offset number bits = Inr (array', offset + bits)"
        using True idx_lt wr W32
        by (simp add: write_binary_in_array_step[OF bpos] W_def[symmetric] idx_def[symmetric]
            bi_def[symmetric] wr_def[symmetric] array'_def v_def s_def word_def)
      have len: "length array' = length array" by (simp add: array'_def)
      have bound: "\<forall>w\<in>set array'. w < 2 ^ W"
        using prems(1) vlt set_update_subset_insert[of array idx v] by (auto simp: array'_def)
      have bits_eq: "array_bit k array' p =
               (if offset \<le> p \<and> p < offset + bits then bit number (offset + bits - 1 - p)
                else array_bit k array p)" for p
      proof (cases "p div W = idx")
        case same: True
        define r where "r = p mod W"
        have p: "p = X + r" and r: "r < W"
          using same Wpos by (auto simp: X_def r_def)
        have "array_bit k array' p = bit v (W - 1 - r)"
          using same idx_lt by (simp add: ab array'_def r_def)
        also have "\<dots> = (if s \<le> W - 1 - r \<and> W - 1 - r < s + bits then bit number (W - 1 - r - s)
                          else bit word (W - 1 - r))"
          by (rule vbits)
        also have "\<dots> = (if offset \<le> p \<and> p < offset + bits then bit number (offset + bits - 1 - p)
                          else array_bit k array p)"
        proof -
          have c: "(s \<le> W - 1 - r \<and> W - 1 - r < s + bits) \<longleftrightarrow> (offset \<le> p \<and> p < offset + bits)"
            using True wr r bi by (auto simp: s_def p off)
          have i: "offset \<le> p \<Longrightarrow> p < offset + bits \<Longrightarrow> W - 1 - r - s = offset + bits - 1 - p"
            using True wr r bi by (auto simp: s_def p off)
          have w: "bit word (W - 1 - r) = array_bit k array p"
            using same by (simp add: ab word_def r_def)
          show ?thesis using c i w by auto
        qed
        finally show ?thesis .
      next
        case other: False
        have "\<not> (offset \<le> p \<and> p < offset + bits)"
        proof
          assume "offset \<le> p \<and> p < offset + bits"
          then have "X \<le> p" "p < X + W" using True wr by (auto simp: off)
          then have "p div W = idx" unfolding X_def by (rule div_eq_of_bounds)
          then show False using other by simp
        qed
        moreover have "array_bit k array' p = array_bit k array p"
          using other idx_lt by (simp add: ab array'_def)
        ultimately show ?thesis by auto
      qed
      show ?thesis using res len bound bits_eq by (auto simp: W_def)
    next
      case False
      then have gt: "wr < bits" by simp
      define sh where "sh = bits - wr"
      define x where "x = drop_bit sh number"
      define v where "v = word + x"
      define array1 where "array1 = array[idx := v]"
      have sh: "0 < sh" "sh < bits" "sh \<le> 32" "sh + wr = bits"
        using gt wr prems(5) by (auto simp: sh_def wr_def bi_def)
      have xlt: "x < 2 ^ wr"
      proof -
        have "number < 2 ^ sh * 2 ^ wr" using prems(4) sh(4) by (simp add: power_add[symmetric])
        then show ?thesis
          unfolding x_def drop_bit_eq_div by (simp add: less_mult_imp_div_less mult.commute)
      qed
      have z: "\<And>j. 0 \<le> j \<Longrightarrow> j < 0 + wr \<Longrightarrow> \<not> bit word j"
        using zero_word gt by (simp add: min_def)
      have vbits: "\<And>j. bit v j \<longleftrightarrow> (if j < wr then bit number (sh + j) else bit word j)"
        using add_into_zero_bits[where s = 0 and word = word, OF z xlt]
        by (simp add: v_def x_def bit_drop_bit_eq)
      have vlt: "v < 2 ^ W"
        using add_into_zero_bits_bound[where s = 0 and word = word, OF z xlt word_lt] wr
        by (simp add: v_def)
      have len1: "length array1 = length array" by (simp add: array1_def)
      have bound1: "\<forall>w\<in>set array1. w < 2 ^ W"
        using prems(1) vlt set_update_subset_insert[of array idx v] by (auto simp: array1_def)
      have off': "offset + wr = X + W" using wr by (simp add: off)
      have mod': "(offset + wr) mod W = 0" by (simp add: off' X_def)
      have later: "array_bit k array1 p = array_bit k array p" if "X + W \<le> p" for p
      proof -
        have "p div W \<noteq> idx"
        proof
          assume "p div W = idx"
          then have "p = X + p mod W" using Wpos by (auto simp: X_def)
          moreover have "p mod W < W" using Wpos by simp
          ultimately show False using that by linarith
        qed
        then show ?thesis using idx_lt by (simp add: ab array1_def)
      qed
      have "\<exists>array'. write_binary_in_array k array1 (offset + wr) (take_bit sh number) sh
               = Inr (array', offset + wr + sh)
          \<and> length array' = length array1 \<and> (\<forall>w\<in>set array'. w < 2 ^ (2 ^ k))
          \<and> (\<forall>p. array_bit k array' p =
               (if offset + wr \<le> p \<and> p < offset + wr + sh
                then bit (take_bit sh number) (offset + wr + sh - 1 - p)
                else array_bit k array1 p))"
      proof (rule less.IH[OF sh(2)])
        show "\<forall>w\<in>set array1. w < 2 ^ (2 ^ k)" using bound1 by (simp add: W_def)
        show "offset + wr + sh \<le> 2 ^ k * length array1"
          using prems(2) sh(4) by (simp add: len1 W_def add.assoc add.commute)
        show "\<forall>p. offset + wr \<le> p \<and> p < offset + wr + sh \<longrightarrow> \<not> array_bit k array1 p"
        proof (intro allI impI)
          fix p assume p: "offset + wr \<le> p \<and> p < offset + wr + sh"
          then have "array_bit k array1 p = array_bit k array p" using later off' by simp
          moreover have "offset \<le> p \<and> p < offset + bits" using p sh(4) by auto
          ultimately show "\<not> array_bit k array1 p" using prems(3) by blast
        qed
        show "take_bit sh number < 2 ^ sh" by simp
        show "sh \<le> 32 + (2 ^ k - (offset + wr) mod 2 ^ k)"
          using sh(3) mod' by (simp add: W_def)
      qed
      then obtain array' where
        r1: "write_binary_in_array k array1 (offset + wr) (take_bit sh number) sh = Inr (array', offset + wr + sh)"
        and len: "length array' = length array1"
        and bound: "\<forall>w\<in>set array'. w < 2 ^ (2 ^ k)"
        and bits1: "\<And>p. array_bit k array' p =
               (if offset + wr \<le> p \<and> p < offset + wr + sh
                then bit (take_bit sh number) (offset + wr + sh - 1 - p)
                else array_bit k array1 p)"
        by blast
      have res: "write_binary_in_array k array offset number bits = Inr (array', offset + bits)"
        using False idx_lt sh r1
        by (simp add: write_binary_in_array_step[OF bpos] W_def[symmetric] idx_def[symmetric]
            bi_def[symmetric] wr_def[symmetric] array1_def v_def x_def sh_def[symmetric] word_def
            add.assoc)
      have bits_eq: "array_bit k array' p =
               (if offset \<le> p \<and> p < offset + bits then bit number (offset + bits - 1 - p)
                else array_bit k array p)" for p
      proof (cases "offset + wr \<le> p \<and> p < offset + wr + sh")
        case True
        then have "offset + wr + sh - 1 - p < sh" by auto
        then have "array_bit k array' p = bit number (offset + wr + sh - 1 - p)"
          using True by (simp add: bits1 bit_take_bit_iff)
        moreover have "offset + wr + sh = offset + bits" using sh(4) by simp
        moreover have "offset \<le> p \<and> p < offset + bits" using True sh(4) by auto
        ultimately show ?thesis by simp
      next
        case out: False
        then have a1: "array_bit k array' p = array_bit k array1 p" by (auto simp: bits1)
        show ?thesis
        proof (cases "p div W = idx")
          case same: True
          define r where "r = p mod W"
          have p: "p = X + r" and r: "r < W"
            using same Wpos by (auto simp: X_def r_def)
          have "array_bit k array1 p = bit v (W - 1 - r)"
            using same idx_lt by (simp add: ab array1_def r_def)
          also have "\<dots> = (if W - 1 - r < wr then bit number (sh + (W - 1 - r)) else bit word (W - 1 - r))"
            by (rule vbits)
          also have "\<dots> = (if offset \<le> p \<and> p < offset + bits then bit number (offset + bits - 1 - p)
                          else array_bit k array p)"
          proof -
            have c: "W - 1 - r < wr \<longleftrightarrow> (offset \<le> p \<and> p < offset + bits)"
              using wr r bi sh by (auto simp: p off)
            have i: "offset \<le> p \<Longrightarrow> sh + (W - 1 - r) = offset + bits - 1 - p"
              using wr r bi sh by (auto simp: p off)
            have w: "bit word (W - 1 - r) = array_bit k array p"
              using same by (simp add: ab word_def r_def)
            show ?thesis using c i w by auto
          qed
          finally show ?thesis using a1 by simp
        next
          case other: False
          have "\<not> (offset \<le> p \<and> p < offset + bits)"
          proof
            assume h: "offset \<le> p \<and> p < offset + bits"
            then have "p < X + W" using out sh(4) off' by auto
            moreover have "X \<le> p" using h by (simp add: off)
            ultimately have "p div W = idx" unfolding X_def by (intro div_eq_of_bounds)
            then show False using other by simp
          qed
          moreover have "array_bit k array1 p = array_bit k array p"
            using other idx_lt by (simp add: ab array1_def)
          ultimately show ?thesis using a1 by auto
        qed
      qed
      show ?thesis using res len len1 bound bits_eq by auto
    qed
  qed
qed


lemma and_read_mask32: "(word::nat) AND drop_bit bi 4294967295 = take_bit (32 - bi) word"
proof -
  have m: "(4294967295::nat) = mask 32" by (simp add: mask_eq_exp_minus_1)
  show ?thesis unfolding m drop_bit_mask_eq by (simp only: take_bit_eq_mask)
qed

lemma and_read_mask8: "(word::nat) AND drop_bit bi 255 = take_bit (8 - bi) word"
proof -
  have m: "(255::nat) = mask 8" by (simp add: mask_eq_exp_minus_1)
  show ?thesis unfolding m drop_bit_mask_eq by (simp only: take_bit_eq_mask)
qed

lemma and_31_mod: "(offset::nat) AND 31 = offset mod 32"
  using and_mask_mod[of offset 5] by simp

lemma and_7_mod: "(offset::nat) AND 7 = offset mod 8"
  using and_mask_mod[of offset 3] by simp

lemma read_binary_from_iarray_aux:
  assumes idx: "idx = drop_bit 5 offset" and bi: "bi = offset AND 31" and rd: "rd = 32 - bi"
  shows "read_binary_from_iarray array offset bits =
     (if idx \<ge> length array then Inl IndexError
      else if bits > rd then
        (if idx + 1 \<ge> length array then Inl IndexError
         else if bits - rd > 32 then Inl ValueError
         else Inr (push_bit (bits - rd) (take_bit rd (array ! idx))
                   + drop_bit (32 - (bits - rd)) (array ! (idx + 1))))
      else Inr (drop_bit (rd - bits) (take_bit rd (array ! idx))))"
  unfolding read_binary_from_iarray_def Let_def idx[symmetric] bi[symmetric] and_read_mask32 rd[symmetric]
  by auto

lemma read_binary_from_iarray_bits:
  assumes words: "\<forall>w\<in>set array. w < 2 ^ 32"
    and size: "offset + bits \<le> 32 * length array"
    and pos: "0 < bits"
    and le: "bits \<le> 32 + (32 - offset mod 32)"
  shows "\<exists>v. read_binary_from_iarray array offset bits = Inr v \<and> v < 2 ^ bits
           \<and> (\<forall>j<bits. bit v j = array_bit 5 array (offset + bits - 1 - j))"
proof -
  define W where "W = (32::nat)"
  define idx where "idx = offset div W"
  define bi where "bi = offset mod W"
  define rd where "rd = W - bi"
  define X where "X = idx * W"
  have Wpos: "0 < W" by (simp add: W_def)
  have off: "offset = X + bi" and bi: "bi < W"
    by (simp_all add: X_def idx_def bi_def W_def)
  have rd: "0 < rd" "rd \<le> W" "rd + bi = W" using bi by (simp_all add: rd_def)
  have ab: "\<And>a p. array_bit 5 a p = bit (a ! (p div W)) (W - 1 - p mod W)"
    by (simp add: array_bit_def W_def)
  have "offset < W * length array" using size pos by (simp add: W_def)
  then have idx_lt: "idx < length array"
    unfolding idx_def by (simp add: less_mult_imp_div_less mult.commute)
  define word where "word = array ! idx"
  have unfold: "read_binary_from_iarray array offset bits =
     (if bits > rd then
        (if idx + 1 \<ge> length array then Inl IndexError
         else if bits - rd > 32 then Inl ValueError
         else Inr (push_bit (bits - rd) (take_bit rd word) + drop_bit (32 - (bits - rd)) (array ! (idx + 1))))
      else Inr (drop_bit (rd - bits) (take_bit rd word)))"
    using idx_lt
    by (subst read_binary_from_iarray_aux[where idx = idx and bi = bi and rd = rd])
       (simp_all add: idx_def bi_def rd_def W_def drop_bit_eq_div and_31_mod word_def)
  have in_word: "\<And>q r. r < W \<Longrightarrow> (q * W + r) div W = q \<and> (q * W + r) mod W = r"
    using Wpos by simp
  show ?thesis
  proof (cases "bits \<le> rd")
    case True
    define v where "v = drop_bit (rd - bits) (take_bit rd word)"
    have r: "read_binary_from_iarray array offset bits = Inr v"
      using True by (simp add: unfold v_def)
    have vb: "\<And>j. bit v j \<longleftrightarrow> j < bits \<and> bit word (rd - bits + j)"
      using True by (auto simp: v_def bit_drop_bit_eq bit_take_bit_iff)
    have vlt: "v < 2 ^ bits" unfolding nat_less_exp_iff_bit using vb by auto
    have "bit v j = array_bit 5 array (offset + bits - 1 - j)" if "j < bits" for j
    proof -
      define rr where "rr = bi + bits - 1 - j"
      have rr: "rr < W" using that True rd by (simp add: rr_def)
      have p: "offset + bits - 1 - j = idx * W + rr" using that by (simp add: off rr_def X_def)
      have "W - 1 - rr = rd - bits + j" using that True rd by (simp add: rr_def)
      then show ?thesis
        unfolding p ab using in_word[OF rr, of idx] vb[of j] that by (simp add: word_def)
    qed
    then show ?thesis using r vlt by blast
  next
    case False
    define b2 where "b2 = bits - rd"
    have b2: "0 < b2" "b2 \<le> 32" "b2 + rd = bits"
      using False le by (auto simp: b2_def rd_def bi_def W_def)
    have "X + W < offset + bits" using False rd by (simp add: off)
    then have "W * (idx + 1) < W * length array" using size by (simp add: X_def W_def)
    then have idx1: "idx + 1 < length array" using Wpos by (simp only: mult_less_cancel1)
    define word2 where "word2 = array ! (idx + 1)"
    have w2: "word2 < 2 ^ 32" using words idx1 by (simp add: word2_def)
    define hi where "hi = push_bit b2 (take_bit rd word)"
    define x where "x = drop_bit (32 - b2) word2"
    define v where "v = hi + x"
    have r: "read_binary_from_iarray array offset bits = Inr v"
      using False idx1 b2 by (simp add: unfold v_def hi_def x_def b2_def word2_def)
    have xlt: "x < 2 ^ b2"
    proof -
      have "word2 < 2 ^ (32 - b2) * 2 ^ b2" using w2 b2(2) by (simp add: power_add[symmetric])
      then show ?thesis
        unfolding x_def drop_bit_eq_div by (simp add: less_mult_imp_div_less mult.commute)
    qed
    have z: "\<And>j. 0 \<le> j \<Longrightarrow> j < 0 + b2 \<Longrightarrow> \<not> bit hi j"
      by (simp add: hi_def bit_push_bit_iff)
    have vb: "\<And>j. bit v j \<longleftrightarrow> (if j < b2 then bit word2 (32 - b2 + j) else j - b2 < rd \<and> bit word (j - b2))"
      using add_into_zero_bits[where s = 0 and word = hi, OF z xlt]
      by (auto simp: v_def x_def hi_def bit_drop_bit_eq bit_push_bit_iff bit_take_bit_iff)
    have vlt: "v < 2 ^ bits" unfolding nat_less_exp_iff_bit using vb b2 by auto
    have "bit v j = array_bit 5 array (offset + bits - 1 - j)" if "j < bits" for j
    proof (cases "j < b2")
      case True
      define rr where "rr = b2 - 1 - j"
      have rr: "rr < W" using True b2 by (simp add: rr_def W_def)
      have p: "offset + bits - 1 - j = (idx + 1) * W + rr"
        using True b2 rd by (simp add: off rr_def X_def)
      have "W - 1 - rr = 32 - b2 + j" using True b2 by (simp add: rr_def W_def)
      then show ?thesis
        unfolding p ab using in_word[OF rr, of "idx + 1"] vb[of j] True by (simp add: word2_def)
    next
      case False
      define rr where "rr = bi + bits - 1 - j"
      have rr: "rr < W" using that False b2 rd by (simp add: rr_def)
      have p: "offset + bits - 1 - j = idx * W + rr" using that by (simp add: off rr_def X_def)
      have "W - 1 - rr = j - b2" "j - b2 < rd" using that False b2 rd by (simp_all add: rr_def)
      then show ?thesis
        unfolding p ab using in_word[OF rr, of idx] vb[of j] False by (simp add: word_def)
    qed
    then show ?thesis using r vlt by blast
  qed
qed


lemma read_binary_from_barray_loop_0:
  "read_binary_from_barray_loop array offset 0 number = Inr number"
  by (subst read_binary_from_barray_loop.simps) simp

lemma read_binary_from_barray_loop_aux:
  assumes "bits > 0" and idx: "idx = drop_bit 3 offset" and bi: "bi = offset AND 7"
    and rd: "rd = 8 - bi" and pos: "0 < rd"
  shows "read_binary_from_barray_loop array offset bits number =
     (if idx \<ge> length array then Inl IndexError
      else if bits \<le> rd then
        Inr (push_bit bits number + drop_bit (rd - bits) (take_bit rd (array ! idx)))
      else read_binary_from_barray_loop array (offset + rd) (bits - rd)
             (push_bit rd number + take_bit rd (array ! idx)))"
  apply (subst read_binary_from_barray_loop.simps)
  unfolding Let_def idx[symmetric] bi[symmetric] and_read_mask8 rd[symmetric]
  using assms(1) pos
  by (auto simp: read_binary_from_barray_loop_0)

lemma read_binary_from_barray_loop_bits:
  "offset + bits \<le> 8 * length array \<Longrightarrow>
   \<exists>v. read_binary_from_barray_loop array offset bits number = Inr v
      \<and> (\<forall>j. bit v j = (if j < bits then array_bit 3 array (offset + bits - 1 - j)
                        else bit number (j - bits)))"
proof (induction bits arbitrary: offset number rule: less_induct)
  case (less bits)
  define W where "W = (8::nat)"
  have ab: "\<And>a p. array_bit 3 a p = bit (a ! (p div W)) (W - 1 - p mod W)"
    by (simp add: array_bit_def W_def)
  show ?case
  proof (cases "bits = 0")
    case True
    then show ?thesis by (simp add: read_binary_from_barray_loop_0)
  next
    case False
    then have bpos: "0 < bits" by simp
    define idx where "idx = offset div W"
    define bi where "bi = offset mod W"
    define rd where "rd = W - bi"
    define X where "X = idx * W"
    have Wpos: "0 < W" by (simp add: W_def)
    have off: "offset = X + bi" and bi: "bi < W"
      by (simp_all add: X_def idx_def bi_def W_def)
    have rd: "0 < rd" "rd \<le> W" "rd + bi = W" using bi by (simp_all add: rd_def)
    have "offset < W * length array" using less.prems bpos by (simp add: W_def)
    then have idx_lt: "idx < length array"
      unfolding idx_def by (simp add: less_mult_imp_div_less mult.commute)
    define word where "word = array ! idx"
    have unfold: "read_binary_from_barray_loop array offset bits number =
       (if bits \<le> rd then Inr (push_bit bits number + drop_bit (rd - bits) (take_bit rd word))
        else read_binary_from_barray_loop array (offset + rd) (bits - rd)
               (push_bit rd number + take_bit rd word))"
      using idx_lt rd(1)
      by (subst read_binary_from_barray_loop_aux[OF bpos, where idx = idx and bi = bi and rd = rd])
         (simp_all add: idx_def bi_def rd_def W_def drop_bit_eq_div and_7_mod word_def)
    have in_word: "\<And>r. r < W \<Longrightarrow> (X + r) div W = idx \<and> (X + r) mod W = r"
      using Wpos by (simp add: X_def)
    show ?thesis
    proof (cases "bits \<le> rd")
      case True
      define x where "x = drop_bit (rd - bits) (take_bit rd word)"
      define v where "v = push_bit bits number + x"
      have r: "read_binary_from_barray_loop array offset bits number = Inr v"
        using True by (simp add: unfold v_def x_def)
      have xb: "\<And>j. bit x j \<longleftrightarrow> j < bits \<and> bit word (rd - bits + j)"
        using True by (auto simp: x_def bit_drop_bit_eq bit_take_bit_iff)
      have xlt: "x < 2 ^ bits" unfolding nat_less_exp_iff_bit using xb by auto
      have z: "\<And>j. 0 \<le> j \<Longrightarrow> j < 0 + bits \<Longrightarrow> \<not> bit (push_bit bits number) j"
        by (simp add: bit_push_bit_iff)
      have vb: "\<And>j. bit v j \<longleftrightarrow> (if j < bits then bit word (rd - bits + j) else bit number (j - bits))"
        using add_into_zero_bits[where s = 0 and word = "push_bit bits number", OF z xlt]
        by (auto simp: v_def xb bit_push_bit_iff)
      have "bit word (rd - bits + j) = array_bit 3 array (offset + bits - 1 - j)" if "j < bits" for j
      proof -
        define rr where "rr = bi + bits - 1 - j"
        have rr: "rr < W" using that True rd by (simp add: rr_def)
        have p: "offset + bits - 1 - j = X + rr" using that by (simp add: off rr_def)
        have "W - 1 - rr = rd - bits + j" using that True rd by (simp add: rr_def)
        then show ?thesis
          unfolding p ab using in_word[OF rr] by (simp add: word_def)
      qed
      then show ?thesis using r vb by auto
    next
      case False
      define number' where "number' = push_bit rd number + take_bit rd word"
      have lt: "bits - rd < bits" using rd bpos by simp
      have "offset + rd + (bits - rd) \<le> 8 * length array" using less.prems False by simp
      from less.IH[OF lt this, of number']
      obtain v where r1: "read_binary_from_barray_loop array (offset + rd) (bits - rd) number' = Inr v"
        and vb1: "\<And>j. bit v j = (if j < bits - rd
                      then array_bit 3 array (offset + rd + (bits - rd) - 1 - j)
                      else bit number' (j - (bits - rd)))"
        by blast
      have r: "read_binary_from_barray_loop array offset bits number = Inr v"
        using False r1 by (simp add: unfold number'_def)
      have z: "\<And>j. 0 \<le> j \<Longrightarrow> j < 0 + rd \<Longrightarrow> \<not> bit (push_bit rd number) j"
        by (simp add: bit_push_bit_iff)
      have nb: "\<And>j. bit number' j \<longleftrightarrow> (if j < rd then bit word j else bit number (j - rd))"
        using add_into_zero_bits[where s = 0 and word = "push_bit rd number" and x = "take_bit rd word" and n = rd, OF z]
        by (auto simp: number'_def bit_push_bit_iff bit_take_bit_iff)
      have "bit v j = (if j < bits then array_bit 3 array (offset + bits - 1 - j)
                        else bit number (j - bits))" for j
      proof (cases "j < bits - rd")
        case True
        then have "j < bits" by simp
        then show ?thesis using True False by (simp add: vb1)
      next
        case c2: False
        define j' where "j' = j - (bits - rd)"
        have v: "bit v j = (if j' < rd then bit word j' else bit number (j' - rd))"
          using c2 by (simp add: vb1 nb j'_def)
        show ?thesis
        proof (cases "j < bits")
          case True
          then have j'rd: "j' < rd" using c2 False by (simp add: j'_def)
          define rr where "rr = W - 1 - j'"
          have rr: "rr < W" using Wpos by (simp add: rr_def)
          have p: "offset + bits - 1 - j = X + rr"
            using True c2 False rd j'rd by (simp add: off rr_def j'_def)
          have "W - 1 - rr = j'" using j'rd rd by (simp add: rr_def)
          then have "array_bit 3 array (offset + bits - 1 - j) = bit word j'"
            unfolding p ab using in_word[OF rr] by (simp add: word_def)
          then show ?thesis using v True j'rd by simp
        next
          case c3: False
          then have "\<not> j' < rd" "j' - rd = j - bits" using False by (auto simp: j'_def)
          then show ?thesis using v c3 by simp
        qed
      qed
      then show ?thesis using r by blast
    qed
  qed
qed


lemma write_binary_in_array_then_bits:
  assumes k: "(2::nat) ^ k \<le> 32"
    and "\<forall>w\<in>set array. w < 2 ^ (2 ^ k)" "offset + bits \<le> 2 ^ k * length array"
    and "\<forall>p. offset \<le> p \<and> p < offset + bits \<longrightarrow> \<not> array_bit k array p"
    and "number < 2 ^ bits" "bits \<le> 32 + (2 ^ k - offset mod 2 ^ k)"
  obtains array' where "write_binary_in_array k array offset number bits = Inr (array', offset + bits)"
    and "length array' = length array" and "\<forall>w\<in>set array'. w < 2 ^ (2 ^ k)"
    and "\<And>j. j < bits \<Longrightarrow> array_bit k array' (offset + bits - 1 - j) = bit number j"
    and "\<And>p. \<not> (offset \<le> p \<and> p < offset + bits) \<Longrightarrow> array_bit k array' p = array_bit k array p"
proof -
  from write_binary_in_array_bits[OF assms]
  obtain array' where r: "write_binary_in_array k array offset number bits = Inr (array', offset + bits)"
    and l: "length array' = length array" and b: "\<forall>w\<in>set array'. w < 2 ^ (2 ^ k)"
    and e: "\<And>p. array_bit k array' p =
               (if offset \<le> p \<and> p < offset + bits then bit number (offset + bits - 1 - p)
                else array_bit k array p)"
    by blast
  have "array_bit k array' (offset + bits - 1 - j) = bit number j" if "j < bits" for j
  proof -
    have "offset \<le> offset + bits - 1 - j \<and> offset + bits - 1 - j < offset + bits"
      using that by auto
    moreover have "offset + bits - 1 - (offset + bits - 1 - j) = j" using that by auto
    ultimately show ?thesis by (simp add: e)
  qed
  moreover have "array_bit k array' p = array_bit k array p"
    if "\<not> (offset \<le> p \<and> p < offset + bits)" for p
    using that by (auto simp: e)
  ultimately show ?thesis using that r l b by blast
qed

lemma nat_eq_of_bits:
  fixes v number :: nat
  assumes "\<And>j. j < bits \<Longrightarrow> bit v j = bit number j" "v < 2 ^ bits" "number < 2 ^ bits"
  shows "v = number"
proof (rule bit_eqI)
  fix j
  show "bit v j = bit number j"
  proof (cases "j < bits")
    case True
    then show ?thesis by (rule assms(1))
  next
    case False
    then show ?thesis using assms(2,3) unfolding nat_less_exp_iff_bit by auto
  qed
qed

lemma write_binary_in_array_wide:
  assumes "offset div 2 ^ k < length array" and "bits > 32 + (2 ^ k - offset mod 2 ^ k)"
  shows "write_binary_in_array k array offset number bits = Inl ValueError"
proof -
  define wr where "wr = 2 ^ k - offset mod 2 ^ k"
  have b: "0 < bits" "\<not> bits \<le> wr" "bits - wr > 32"
    using assms(2) unfolding wr_def[symmetric] by simp_all
  have i: "\<not> offset div 2 ^ k \<ge> length array" using assms(1) by simp
  have "write_binary_in_array k array offset number bits =
     (if offset div 2 ^ k \<ge> length array then Inl IndexError
      else if bits \<le> wr then
        (if wr - bits > 32 then Inl ValueError
         else Inr (array[offset div 2 ^ k := array ! (offset div 2 ^ k) + push_bit (wr - bits) number],
                   offset + bits))
      else
        (if bits - wr > 32 then Inl ValueError
         else write_binary_in_array k
                (array[offset div 2 ^ k := array ! (offset div 2 ^ k) + drop_bit (bits - wr) number])
                (offset + wr) (take_bit (bits - wr) number) (bits - wr)))"
    unfolding wr_def by (rule write_binary_in_array_step[OF b(1)])
  then show ?thesis by (simp only: i b if_False if_True)
qed

text \<open>
  C2, amended. Let the array hold words of the given size \<open>W\<close> (8 or 32 bits), let
  \<open>bits \<ge> 1\<close> and \<open>number < 2^bits\<close>.
  \<^item> If the array is long enough for the bits \<open>offset .. offset + bits - 1\<close> and zero in that
    range, and the part of the value that does not fit the first word is at most 32 bits
    wide, \<open>bits \<le> 32 + (W - offset mod W)\<close>, which every \<open>bits \<le> 32\<close> satisfies, then the
    write returns \<open>offset + bits\<close> and the matching read at the same offset returns
    \<open>number\<close>.
  \<^item> If the value is wider, \<open>bits > 32 + (W - offset mod W)\<close>, and the first word
    \<open>offset div W\<close> is inside the array, the write raises ValueError, whatever the array
    and the value are.
\<close>

theorem write_read_binary_roundtrip:
  assumes "1 \<le> bits" and "number < 2 ^ bits"
  shows "((\<forall>w\<in>set barray. w < 2 ^ 8) \<and> offset + bits \<le> 8 * length barray
          \<and> (\<forall>p. offset \<le> p \<and> p < offset + bits \<longrightarrow> \<not> array_bit 3 barray p)
          \<and> bits \<le> 32 + (8 - offset mod 8)
          \<longrightarrow> (\<exists>array'. write_binary_in_barray barray offset number bits = Inr (array', offset + bits)
                 \<and> read_binary_from_barray array' offset bits = Inr number))
       \<and> ((\<forall>w\<in>set iarray. w < 2 ^ 32) \<and> offset + bits \<le> 32 * length iarray
          \<and> (\<forall>p. offset \<le> p \<and> p < offset + bits \<longrightarrow> \<not> array_bit 5 iarray p)
          \<and> bits \<le> 32 + (32 - offset mod 32)
          \<longrightarrow> (\<exists>array'. write_binary_in_iarray iarray offset number bits = Inr (array', offset + bits)
                 \<and> read_binary_from_iarray array' offset bits = Inr number))
       \<and> (offset div 8 < length barray \<and> bits > 32 + (8 - offset mod 8)
          \<longrightarrow> write_binary_in_barray barray offset number bits = Inl ValueError)
       \<and> (offset div 32 < length iarray \<and> bits > 32 + (32 - offset mod 32)
          \<longrightarrow> write_binary_in_iarray iarray offset number bits = Inl ValueError)"
proof (intro conjI impI)
  assume h: "(\<forall>w\<in>set barray. w < 2 ^ 8) \<and> offset + bits \<le> 8 * length barray
          \<and> (\<forall>p. offset \<le> p \<and> p < offset + bits \<longrightarrow> \<not> array_bit 3 barray p)
          \<and> bits \<le> 32 + (8 - offset mod 8)"
  have k: "(2::nat) ^ 3 \<le> 32" by simp
  have h1: "\<forall>w\<in>set barray. w < 2 ^ (2 ^ 3)" "offset + bits \<le> 2 ^ 3 * length barray"
    "\<forall>p. offset \<le> p \<and> p < offset + bits \<longrightarrow> \<not> array_bit 3 barray p"
    "bits \<le> 32 + (2 ^ 3 - offset mod 2 ^ 3)"
    using h by simp_all
  obtain array' where w: "write_binary_in_array 3 barray offset number bits = Inr (array', offset + bits)"
    and l: "length array' = length barray"
    and b: "\<And>j. j < bits \<Longrightarrow> array_bit 3 array' (offset + bits - 1 - j) = bit number j"
    by (rule write_binary_in_array_then_bits[OF k h1(1,2,3) assms(2) h1(4)]) blast
  have "offset + bits \<le> 8 * length array'" using h l by simp
  from read_binary_from_barray_loop_bits[OF this, of 0]
  obtain v where r: "read_binary_from_barray_loop array' offset bits 0 = Inr v"
    and vb: "\<And>j. bit v j = (if j < bits then array_bit 3 array' (offset + bits - 1 - j) else bit (0::nat) (j - bits))"
    by blast
  have "v < 2 ^ bits" unfolding nat_less_exp_iff_bit using vb by auto
  then have "v = number"
    using vb b assms(2) by (intro nat_eq_of_bits[of bits]) auto
  then show "\<exists>array'. write_binary_in_barray barray offset number bits = Inr (array', offset + bits)
                 \<and> read_binary_from_barray array' offset bits = Inr number"
    using w r by (auto simp: write_binary_in_barray_def read_binary_from_barray_def)
next
  assume h: "(\<forall>w\<in>set iarray. w < 2 ^ 32) \<and> offset + bits \<le> 32 * length iarray
          \<and> (\<forall>p. offset \<le> p \<and> p < offset + bits \<longrightarrow> \<not> array_bit 5 iarray p)
          \<and> bits \<le> 32 + (32 - offset mod 32)"
  have k: "(2::nat) ^ 5 \<le> 32" by simp
  have h1: "\<forall>w\<in>set iarray. w < 2 ^ (2 ^ 5)" "offset + bits \<le> 2 ^ 5 * length iarray"
    "\<forall>p. offset \<le> p \<and> p < offset + bits \<longrightarrow> \<not> array_bit 5 iarray p"
    "bits \<le> 32 + (2 ^ 5 - offset mod 2 ^ 5)"
    using h by simp_all
  obtain array' where w: "write_binary_in_array 5 iarray offset number bits = Inr (array', offset + bits)"
    and l: "length array' = length iarray"
    and bd: "\<forall>w\<in>set array'. w < 2 ^ (2 ^ 5)"
    and b: "\<And>j. j < bits \<Longrightarrow> array_bit 5 array' (offset + bits - 1 - j) = bit number j"
    by (rule write_binary_in_array_then_bits[OF k h1(1,2,3) assms(2) h1(4)]) blast
  have "\<forall>w\<in>set array'. w < 2 ^ 32" using bd by simp
  moreover have "offset + bits \<le> 32 * length array'" using h l by simp
  moreover have "0 < bits" using assms(1) by simp
  moreover have "bits \<le> 32 + (32 - offset mod 32)" using h by simp
  ultimately obtain v where r: "read_binary_from_iarray array' offset bits = Inr v"
    and vlt: "v < 2 ^ bits"
    and vb: "\<And>j. j < bits \<Longrightarrow> bit v j = array_bit 5 array' (offset + bits - 1 - j)"
    using read_binary_from_iarray_bits[of array' offset bits] by blast
  have "v = number"
    using vb b vlt assms(2) by (intro nat_eq_of_bits[of bits]) auto
  then show "\<exists>array'. write_binary_in_iarray iarray offset number bits = Inr (array', offset + bits)
                 \<and> read_binary_from_iarray array' offset bits = Inr number"
    using w r by (auto simp: write_binary_in_iarray_def)
next
  assume h: "offset div 8 < length barray \<and> bits > 32 + (8 - offset mod 8)"
  then have "offset div 2 ^ 3 < length barray" "bits > 32 + (2 ^ 3 - offset mod 2 ^ 3)"
    by simp_all
  then show "write_binary_in_barray barray offset number bits = Inl ValueError"
    unfolding write_binary_in_barray_def by (rule write_binary_in_array_wide)
next
  assume h: "offset div 32 < length iarray \<and> bits > 32 + (32 - offset mod 32)"
  then have "offset div 2 ^ 5 < length iarray" "bits > 32 + (2 ^ 5 - offset mod 2 ^ 5)"
    by simp_all
  then show "write_binary_in_iarray iarray offset number bits = Inl ValueError"
    unfolding write_binary_in_iarray_def by (rule write_binary_in_array_wide)
qed

text \<open>
  C2 as stated, for every width: writing 41 bits of the value 0 at offset 0 into six zero
  bytes raises ValueError, since \<open>shift = 41 - 8 = 33\<close> makes the shift count
  \<open>32 - shift\<close> of the clearing mask negative.
\<close>

theorem write_binary_wide_counterexample:
  "write_binary_in_barray [0, 0, 0, 0, 0, 0] 0 0 41 = Inl ValueError"
  by (simp add: write_binary_in_barray_def write_binary_in_array_step)

lemma array_bit_zeros: "p div 2 ^ k < n \<Longrightarrow> \<not> array_bit k (replicate n 0) p"
  by (simp add: array_bit_def)

theorem write_read_binary_roundtrip_witness:
  "(\<exists>array'. write_binary_in_barray [0, 0, 0, 0, 0, 0] 3 1234567 21 = Inr (array', 24)
       \<and> read_binary_from_barray array' 3 21 = Inr 1234567)
   \<and> (\<exists>array'. write_binary_in_iarray [0, 0, 0, 0, 0, 0] 3 1234567 21 = Inr (array', 24)
       \<and> read_binary_from_iarray array' 3 21 = Inr 1234567)
   \<and> write_binary_in_barray [0, 0, 0, 0, 0, 0, 0, 0] 5 7 60 = Inl ValueError
   \<and> write_binary_in_iarray [0, 0, 0] 5 7 60 = Inl ValueError"
proof -
  have b: "[0, 0, 0, 0, 0, 0] = replicate 6 (0::nat)" by (simp add: eval_nat_numeral)
  have zb: "\<forall>p. 3 \<le> p \<and> p < 3 + 21 \<longrightarrow> \<not> array_bit 3 (replicate 6 0) p"
    by (intro allI impI array_bit_zeros) auto
  have zi: "\<forall>p. 3 \<le> p \<and> p < 3 + 21 \<longrightarrow> \<not> array_bit 5 (replicate 6 0) p"
    by (intro allI impI array_bit_zeros) auto
  have "(\<exists>array'. write_binary_in_barray (replicate 6 0) 3 1234567 21 = Inr (array', 24)
       \<and> read_binary_from_barray array' 3 21 = Inr 1234567)
   \<and> (\<exists>array'. write_binary_in_iarray (replicate 6 0) 3 1234567 21 = Inr (array', 24)
       \<and> read_binary_from_iarray array' 3 21 = Inr 1234567)"
    using write_read_binary_roundtrip[of 21 1234567 "replicate 6 0" 3 "replicate 6 0"] zb zi
    by simp
  then have rt: "(\<exists>array'. write_binary_in_barray [0, 0, 0, 0, 0, 0] 3 1234567 21 = Inr (array', 24)
       \<and> read_binary_from_barray array' 3 21 = Inr 1234567)
   \<and> (\<exists>array'. write_binary_in_iarray [0, 0, 0, 0, 0, 0] 3 1234567 21 = Inr (array', 24)
       \<and> read_binary_from_iarray array' 3 21 = Inr 1234567)"
    by (simp only: b)
  have wide: "write_binary_in_barray [0, 0, 0, 0, 0, 0, 0, 0] 5 7 60 = Inl ValueError
      \<and> write_binary_in_iarray [0, 0, 0] 5 7 60 = Inl ValueError"
    using write_read_binary_roundtrip[of 60 7 "[0, 0, 0, 0, 0, 0, 0, 0]" 5 "[0, 0, 0]"]
    by simp
  show ?thesis using rt wide by (intro conjI) (erule conjunct1 conjunct2)+
qed

subsection \<open>Simple-16 round trip\<close>

lemma s16_packed_less:
  "sum_list slots \<le> bits_to_move \<Longrightarrow> \<forall>i < length to_encode. i < length slots \<longrightarrow> to_encode ! i < 2 ^ (slots ! i) \<Longrightarrow>
   s16_packed to_encode slots bits_to_move < 2 ^ bits_to_move"
proof (induction to_encode slots bits_to_move rule: s16_packed.induct)
  case (1 slots bits_to_move)
  then show ?case by simp
next
  case (2 number to_encode bits_to_move)
  then show ?case by simp
next
  case (3 number to_encode slot slots bits_to_move)
  have n: "number < 2 ^ slot" using "3.prems"(2) by force
  have "\<forall>i<length to_encode. i < length slots \<longrightarrow> to_encode ! i < 2 ^ (slots ! i)"
    using "3.prems"(2) by fastforce
  then have r: "s16_packed to_encode slots (bits_to_move - slot) < 2 ^ (bits_to_move - slot)"
    using "3.IH" "3.prems"(1) by simp
  have "number * 2 ^ (bits_to_move - slot) + s16_packed to_encode slots (bits_to_move - slot)
        < (number + 1) * 2 ^ (bits_to_move - slot)"
    using r by (simp add: algebra_simps)
  also have "\<dots> \<le> 2 ^ slot * 2 ^ (bits_to_move - slot)"
    using n by (intro mult_right_mono) simp_all
  also have "\<dots> = 2 ^ bits_to_move"
    using "3.prems"(1) by (simp add: power_add[symmetric])
  finally show ?case by simp
qed

lemma s16_encode_batch_packed:
  "length to_encode \<le> length slots \<Longrightarrow> sum_list slots \<le> bits_to_move \<Longrightarrow>
   s16_encode_batch to_encode slots bits_to_move acc = Inr (acc + s16_packed to_encode slots bits_to_move)"
proof (induction to_encode slots bits_to_move acc rule: s16_encode_batch.induct)
  case (1 slots bits_to_move encoded_batch)
  then show ?case by simp
next
  case (2 number to_encode bits_to_move encoded_batch)
  then show ?case by simp
next
  case (3 number to_encode slot slots bits_to_move encoded_batch)
  then show ?case by (simp add: Let_def push_bit_eq_mult algebra_simps)
qed

lemma and_MASKS: "x AND MASKS w = x mod 2 ^ w"
  by (simp only: MASKS_eq and_mask_mod)

lemma s16_decode_batch_loop_packed:
  "offset + sum_list slots \<le> 28 \<Longrightarrow> length to_encode \<le> length slots \<Longrightarrow>
   \<forall>i < length to_encode. to_encode ! i < 2 ^ (slots ! i) \<Longrightarrow>
   s16_decode_batch_loop (h * 2 ^ (28 - offset) + s16_packed to_encode slots (28 - offset)) offset slots
     = Inr (to_encode @ replicate (length slots - length to_encode) 0)"
proof (induction slots arbitrary: offset to_encode h)
  case Nil
  then show ?case by simp
next
  case (Cons slot slots)
  define r where "r = 28 - (offset + slot)"
  have r: "28 - offset = slot + r" "offset + slot \<le> 28" using Cons.prems(1) by (simp_all add: r_def)
  show ?case
  proof (cases to_encode)
    case Nil
    have e: "h * 2 ^ (28 - offset) = (h * 2 ^ slot) * 2 ^ r + s16_packed [] slots r"
      by (simp add: r power_add)
    have "s16_decode_batch_loop ((h * 2 ^ slot) * 2 ^ (28 - (offset + slot)) + s16_packed [] slots (28 - (offset + slot))) (offset + slot) slots
          = Inr ([] @ replicate (length slots - length ([]::nat list)) 0)"
      by (rule Cons.IH) (use Cons.prems in simp_all)
    then have rec: "s16_decode_batch_loop (h * 2 ^ (28 - offset)) (offset + slot) slots = Inr (replicate (length slots) 0)"
      by (simp add: e r_def)
    have v: "drop_bit r (h * 2 ^ (28 - offset)) AND MASKS slot = 0"
    proof -
      have "drop_bit r (h * 2 ^ (28 - offset)) = h * 2 ^ slot"
        by (simp add: r power_add drop_bit_eq_div)
      then show ?thesis by (simp add: and_MASKS)
    qed
    show ?thesis using Nil r(2) rec v by (simp add: Let_def r_def)
  next
    case (Cons number rest)
    have n: "number < 2 ^ slot" using Cons.prems(3) Cons by force
    have restb: "\<forall>i<length rest. rest ! i < 2 ^ (slots ! i)"
      using Cons.prems(3) Cons by fastforce
    have pl: "s16_packed rest slots r < 2 ^ r"
      by (rule s16_packed_less) (use Cons.prems(1) restb in \<open>auto simp: r_def\<close>)
    have e: "h * 2 ^ (28 - offset) + s16_packed (number # rest) (slot # slots) (28 - offset)
             = (h * 2 ^ slot + number) * 2 ^ r + s16_packed rest slots r"
      by (simp add: r power_add algebra_simps)
    have "s16_decode_batch_loop ((h * 2 ^ slot + number) * 2 ^ (28 - (offset + slot)) + s16_packed rest slots (28 - (offset + slot))) (offset + slot) slots
          = Inr (rest @ replicate (length slots - length rest) 0)"
      by (rule Cons.IH) (use Cons.prems Cons restb in simp_all)
    then have rec: "s16_decode_batch_loop ((h * 2 ^ slot + number) * 2 ^ r + s16_packed rest slots r) (offset + slot) slots
          = Inr (rest @ replicate (length slots - length rest) 0)"
      by (simp add: r_def)
    have v: "drop_bit r ((h * 2 ^ slot + number) * 2 ^ r + s16_packed rest slots r) AND MASKS slot = number"
    proof -
      have "drop_bit r ((h * 2 ^ slot + number) * 2 ^ r + s16_packed rest slots r) = h * 2 ^ slot + number"
        using pl by (simp add: drop_bit_eq_div)
      then show ?thesis using n by (simp add: and_MASKS)
    qed
    show ?thesis
      unfolding Cons e using r(2) rec v by (simp add: Let_def r_def)
  qed
qed


lemma s16_batch_roundtrip:
  assumes f: "s16f \<in> set S16_FORMAT_KEYS_REVERSED"
    and len: "length to_encode \<le> length (S16_FORMATS s16f)"
    and fits: "\<forall>i < length to_encode. to_encode ! i \<le> MASKS (S16_FORMATS s16f ! i)"
  shows "\<exists>batch. s16_encode_batch to_encode (S16_FORMATS s16f) 28 (push_bit 28 s16f) = Inr batch
           \<and> batch < 2 ^ 32
           \<and> s16_decode_batch batch (drop_bit 28 batch AND MASKS 5)
               = Inr (to_encode @ replicate (length (S16_FORMATS s16f) - length to_encode) 0)"
proof -
  let ?slots = "S16_FORMATS s16f"
  have sum: "sum_list ?slots = 28" using S16_FORMATS_facts[OF f] by simp
  have lt16: "s16f < 16" using f by (auto simp: S16_FORMAT_KEYS_REVERSED_def)
  have fits': "\<forall>i < length to_encode. to_encode ! i < 2 ^ (?slots ! i)"
  proof (intro allI impI)
    fix i assume "i < length to_encode"
    then have "to_encode ! i \<le> 2 ^ (?slots ! i) - 1" using fits by (simp add: MASKS_eq)
    moreover have "(0::nat) < 2 ^ (?slots ! i)" by simp
    ultimately show "to_encode ! i < 2 ^ (?slots ! i)" by linarith
  qed
  define P where "P = s16_packed to_encode ?slots 28"
  define batch where "batch = s16f * 2 ^ 28 + P"
  have P: "P < 2 ^ 28"
    unfolding P_def by (rule s16_packed_less) (use sum fits' in auto)
  have enc: "s16_encode_batch to_encode ?slots 28 (push_bit 28 s16f) = Inr batch"
    using s16_encode_batch_packed[OF len, of 28 "push_bit 28 s16f"] sum
    by (simp add: batch_def P_def push_bit_eq_mult)
  have "batch < 16 * 2 ^ 28"
  proof -
    have "s16f * 2 ^ 28 + P < (s16f + 1) * 2 ^ 28" using P by simp
    also have "\<dots> \<le> 16 * 2 ^ 28" using lt16 by (intro mult_right_mono) simp_all
    finally show ?thesis unfolding batch_def .
  qed
  then have b32: "batch < 2 ^ 32" by simp
  have hd: "drop_bit 28 batch AND MASKS 5 = s16f"
  proof -
    have "drop_bit 28 batch = s16f" using P by (simp add: batch_def drop_bit_eq_div)
    then show ?thesis using lt16 by (simp add: and_MASKS)
  qed
  have "s16_decode_batch_loop (s16f * 2 ^ (28 - 0) + s16_packed to_encode ?slots (28 - 0)) 0 ?slots
          = Inr (to_encode @ replicate (length ?slots - length to_encode) 0)"
    by (rule s16_decode_batch_loop_packed) (use sum len fits' in simp_all)
  then have dec: "s16_decode_batch batch s16f = Inr (to_encode @ replicate (length ?slots - length to_encode) 0)"
    using f by (simp add: s16_decode_batch_def batch_def P_def)
  show ?thesis using enc b32 hd dec by simp
qed

lemma s16_encode_decode_loop:
  "\<forall>x \<in> set numbers. x < 2 ^ 28 \<Longrightarrow>
   \<exists>batches pad. s16_encode_loop numbers start encoded = Inr (encoded @ batches)
      \<and> (\<forall>w \<in> set batches. w < 2 ^ 32)
      \<and> s16_decode_loop batches = Inr (drop start numbers @ replicate pad 0)"
proof (induction numbers start encoded rule: s16_encode_loop.induct)
  case (1 numbers start encoded)
  show ?case
  proof (cases "start < length numbers")
    case False
    then have "s16_encode_loop numbers start encoded = Inr (encoded @ [])"
      by (subst s16_encode_loop.simps) simp
    moreover have "s16_decode_loop [] = Inr (drop start numbers @ replicate 0 0)"
      using False by simp
    moreover have "\<forall>w \<in> set ([]::nat list). w < 2 ^ 32" by simp
    ultimately show ?thesis by blast
  next
    case lt: True
    then have "numbers ! start < 2 ^ 28" using "1.prems" by simp
    then obtain r where "find_optimal_format numbers start = Some r"
      using find_optimal_format_loop_small[of S16_FORMAT_KEYS_REVERSED start numbers] lt
      by (auto simp: find_optimal_format_def S16_FORMAT_KEYS_REVERSED_def)
    then obtain s16f n where f: "find_optimal_format numbers start = Some (s16f, n)" by (cases r) auto
    note fs = find_optimal_format_Some[OF f]
    define to_encode where "to_encode = take n (drop start numbers)"
    have len: "length to_encode \<le> length (S16_FORMATS s16f)"
      using fs(2) by (simp add: to_encode_def)
    have fits: "\<forall>i < length to_encode. to_encode ! i \<le> MASKS (S16_FORMATS s16f ! i)"
      using fs(4) lt by (auto simp: to_encode_def)
    from s16_batch_roundtrip[OF fs(1) len fits]
    obtain batch where b: "s16_encode_batch to_encode (S16_FORMATS s16f) 28 (push_bit 28 s16f) = Inr batch"
      and b32: "batch < 2 ^ 32"
      and dec: "s16_decode_batch batch (drop_bit 28 batch AND MASKS 5)
               = Inr (to_encode @ replicate (length (S16_FORMATS s16f) - length to_encode) 0)"
      by blast
    from "1.IH"[OF lt f refl refl b[unfolded to_encode_def] "1.prems"]
    obtain batches pad where
      rec: "s16_encode_loop numbers (start + n) (encoded @ [batch]) = Inr ((encoded @ [batch]) @ batches)"
      and w: "\<forall>w \<in> set batches. w < 2 ^ 32"
      and d: "s16_decode_loop batches = Inr (drop (start + n) numbers @ replicate pad 0)"
      by blast
    have enc: "s16_encode_loop numbers start encoded = Inr (encoded @ (batch # batches))"
      using lt f b rec by (subst s16_encode_loop.simps) (simp add: to_encode_def)
    have "\<exists>pad'. (to_encode @ replicate (n - length to_encode) 0) @ (drop (start + n) numbers @ replicate pad 0)
            = drop start numbers @ replicate pad' 0"
    proof (cases "length to_encode = n")
      case True
      have "take n (drop start numbers) @ drop n (drop start numbers) = drop start numbers"
        by (rule append_take_drop_id)
      then have "to_encode @ drop (start + n) numbers = drop start numbers"
        unfolding to_encode_def by (simp add: add.commute)
      then have "(to_encode @ replicate (n - length to_encode) 0) @ (drop (start + n) numbers @ replicate pad 0)
            = drop start numbers @ replicate pad 0"
        using True by simp
      then show ?thesis by (rule exI)
    next
      case False
      then have "length (drop start numbers) < n" by (auto simp: to_encode_def)
      then have "to_encode = drop start numbers" "drop (start + n) numbers = []"
        by (auto simp: to_encode_def)
      then have "(to_encode @ replicate a 0) @ (drop (start + n) numbers @ replicate pad 0)
            = drop start numbers @ replicate (a + pad) 0" for a
        by (simp add: replicate_add)
      then show ?thesis by blast
    qed
    then obtain pad' where "(to_encode @ replicate (n - length to_encode) 0) @ (drop (start + n) numbers @ replicate pad 0)
            = drop start numbers @ replicate pad' 0" by blast
    then have dl: "s16_decode_loop (batch # batches) = Inr (drop start numbers @ replicate pad' 0)"
      using dec d fs(2) by simp
    have "\<forall>w \<in> set (batch # batches). w < 2 ^ 32" using w b32 by simp
    then show ?thesis using enc dl by blast
  qed
qed

lemma strip_trailing_zeros_snoc: "strip_trailing_zeros (numbers @ [0]) = strip_trailing_zeros numbers"
  by (subst strip_trailing_zeros.simps) simp

lemma strip_trailing_zeros_replicate:
  "strip_trailing_zeros (numbers @ replicate pad 0) = strip_trailing_zeros numbers"
proof (induction pad)
  case 0
  then show ?case by simp
next
  case (Suc pad)
  have "numbers @ replicate (Suc pad) 0 = (numbers @ replicate pad 0) @ [0]"
    by (simp add: replicate_append_same)
  then show ?case using Suc by (simp only: strip_trailing_zeros_snoc)
qed

lemma strip_trailing_zeros_last_nonzero:
  "numbers = [] \<or> last numbers \<noteq> 0 \<Longrightarrow> strip_trailing_zeros numbers = numbers"
  by (subst strip_trailing_zeros.simps) auto

lemma s16_roundtrip:
  assumes "\<forall>x \<in> set numbers. x < 2 ^ 28" and "numbers = [] \<or> last numbers \<noteq> 0"
  shows "\<exists>encoded. s16_encode numbers = Inr encoded \<and> (\<forall>w \<in> set encoded. w < 2 ^ 32)
           \<and> s16_decode encoded True = Inr numbers"
proof -
  from s16_encode_decode_loop[OF assms(1), of 0 "[]"]
  obtain batches pad where "s16_encode_loop numbers 0 [] = Inr batches"
    "\<forall>w \<in> set batches. w < 2 ^ 32"
    "s16_decode_loop batches = Inr (numbers @ replicate pad 0)"
    by auto
  then show ?thesis
    using assms(2)
    by (simp add: s16_encode_def s16_decode_def strip_trailing_zeros_replicate
        strip_trailing_zeros_last_nonzero)
qed


subsection \<open>PForDelta\<close>

lemma find_optimal_b_loop_props:
  "sorted_wrt (<) (optimal_b # bs) \<Longrightarrow>
   let r = find_optimal_b_loop numbers bs optimal_b (estimate_encoded_size numbers optimal_b)
   in r \<in> set (optimal_b # bs)
      \<and> (\<forall>c \<in> set (optimal_b # bs). estimate_encoded_size numbers r \<le> estimate_encoded_size numbers c)
      \<and> (\<forall>c \<in> set (optimal_b # bs). c < r \<longrightarrow> estimate_encoded_size numbers r < estimate_encoded_size numbers c)"
proof (induction bs arbitrary: optimal_b)
  case Nil
  then show ?case by simp
next
  case (Cons current_b bs)
  let ?est = "estimate_encoded_size numbers"
  show ?case
  proof (cases "?est current_b < ?est optimal_b")
    case True
    have s: "sorted_wrt (<) (current_b # bs)" using Cons.prems by simp
    from Cons.IH[OF s] True show ?thesis
      by (auto simp: Let_def)
  next
    case False
    have s: "sorted_wrt (<) (optimal_b # bs)" using Cons.prems by auto
    define r where "r = find_optimal_b_loop numbers bs optimal_b (?est optimal_b)"
    from Cons.IH[OF s] have ih: "r \<in> set (optimal_b # bs)"
      "\<forall>c \<in> set (optimal_b # bs). ?est r \<le> ?est c"
      "\<forall>c \<in> set (optimal_b # bs). c < r \<longrightarrow> ?est r < ?est c"
      by (simp_all add: Let_def r_def)
    have res: "find_optimal_b_loop numbers (current_b # bs) optimal_b (?est optimal_b) = r"
      using False by (simp add: r_def)
    have le_cb: "?est r \<le> ?est current_b" using ih(2) False by force
    have "?est r < ?est current_b" if "current_b < r"
    proof -
      have "optimal_b < current_b" using Cons.prems by simp
      then have "optimal_b < r" using that by simp
      then have "?est r < ?est optimal_b" using ih(3) by simp
      then show ?thesis using False by simp
    qed
    then show ?thesis unfolding res Let_def using ih le_cb by auto
  qed
qed

lemma POSSIBLES_B_eq: "POSSIBLES_B ! 0 = 1" "drop 1 POSSIBLES_B = [2..<33]"
proof -
  have a: "[1..<33] = 1 # [Suc 1..<33]" by (rule upt_conv_Cons) simp
  have b: "Suc 1 = 2" by simp
  have c: "POSSIBLES_B = 1 # [2..<33]" unfolding POSSIBLES_B_def a b ..
  show "POSSIBLES_B ! 0 = 1" unfolding c by (rule nth_Cons_0)
  show "drop 1 POSSIBLES_B = [2..<33]"
    unfolding c by (simp only: One_nat_def drop_Suc_Cons drop_0)
qed

lemma find_optimal_b_props:
  "1 \<le> find_optimal_b numbers" "find_optimal_b numbers \<le> 32"
  "\<And>c. 1 \<le> c \<Longrightarrow> c \<le> 32 \<Longrightarrow>
     estimate_encoded_size numbers (find_optimal_b numbers) \<le> estimate_encoded_size numbers c"
  "\<And>c. 1 \<le> c \<Longrightarrow> c < find_optimal_b numbers \<Longrightarrow>
     estimate_encoded_size numbers (find_optimal_b numbers) < estimate_encoded_size numbers c"
proof -
  define bs where "bs = [2..<33]"
  have "sorted_wrt (<) bs" unfolding bs_def by (rule sorted_wrt_upt)
  moreover have "\<forall>c \<in> set bs. 1 < c" by (simp only: bs_def set_upt) auto
  ultimately have s: "sorted_wrt (<) (1 # bs)" by simp
  have e: "find_optimal_b numbers = find_optimal_b_loop numbers bs 1 (estimate_encoded_size numbers 1)"
    unfolding find_optimal_b_def Let_def POSSIBLES_B_eq bs_def ..
  have "set (1 # bs) = insert 1 {2..<33}" by (simp only: bs_def list.simps set_upt)
  also have "\<dots> = {1..32}" by auto
  finally have set: "set (1 # bs) = {1..32}" .
  from find_optimal_b_loop_props[OF s, of numbers]
  have p: "find_optimal_b numbers \<in> {1..32}"
    "\<forall>c \<in> {1..32}. estimate_encoded_size numbers (find_optimal_b numbers) \<le> estimate_encoded_size numbers c"
    "\<forall>c \<in> {1..32}. c < find_optimal_b numbers \<longrightarrow>
        estimate_encoded_size numbers (find_optimal_b numbers) < estimate_encoded_size numbers c"
    unfolding Let_def e[symmetric] set by blast+
  show "1 \<le> find_optimal_b numbers" "find_optimal_b numbers \<le> 32" using p(1) by auto
  show "\<And>c. 1 \<le> c \<Longrightarrow> c \<le> 32 \<Longrightarrow>
     estimate_encoded_size numbers (find_optimal_b numbers) \<le> estimate_encoded_size numbers c"
    using p(2) by auto
  show "\<And>c. 1 \<le> c \<Longrightarrow> c < find_optimal_b numbers \<Longrightarrow>
     estimate_encoded_size numbers (find_optimal_b numbers) < estimate_encoded_size numbers c"
    using p(1,3) by auto
qed


lemma pfor_low_bits:
  "(if number > MASKS b then number AND MASKS b else number) = take_bit b number"
proof (cases "number > MASKS b")
  case True
  then show ?thesis by (simp add: and_MASKS take_bit_eq_mod)
next
  case False
  then have "number \<le> 2 ^ b - 1" by (simp add: MASKS_eq)
  moreover have "(0::nat) < 2 ^ b" by simp
  ultimately have "number < 2 ^ b" by linarith
  then show ?thesis using False by (simp add: take_bit_nat_eq_self)
qed

lemma write_binary_in_iarray_then_bits:
  assumes "\<forall>w\<in>set array. w < 2 ^ 32" "offset + bits \<le> 32 * length array"
    and "\<forall>p. offset \<le> p \<and> p < offset + bits \<longrightarrow> \<not> array_bit 5 array p"
    and "number < 2 ^ bits" "bits \<le> 32"
  obtains array' where "write_binary_in_iarray array offset number bits = Inr (array', offset + bits)"
    and "length array' = length array" and "\<forall>w\<in>set array'. w < 2 ^ 32"
    and "\<And>j. j < bits \<Longrightarrow> array_bit 5 array' (offset + bits - 1 - j) = bit number j"
    and "\<And>p. \<not> (offset \<le> p \<and> p < offset + bits) \<Longrightarrow> array_bit 5 array' p = array_bit 5 array p"
proof -
  have k: "(2::nat) ^ 5 \<le> 32" by simp
  have h: "\<forall>w\<in>set array. w < 2 ^ (2 ^ 5)" "offset + bits \<le> 2 ^ 5 * length array"
    "bits \<le> 32 + (2 ^ 5 - offset mod 2 ^ 5)"
    using assms by simp_all
  from write_binary_in_array_then_bits[OF k h(1,2) assms(3,4) h(3)]
  obtain array' where "write_binary_in_array 5 array offset number bits = Inr (array', offset + bits)"
    and "length array' = length array" and "\<forall>w\<in>set array'. w < 2 ^ (2 ^ 5)"
    and "\<And>j. j < bits \<Longrightarrow> array_bit 5 array' (offset + bits - 1 - j) = bit number j"
    and "\<And>p. \<not> (offset \<le> p \<and> p < offset + bits) \<Longrightarrow> array_bit 5 array' p = array_bit 5 array p"
    by blast
  then show ?thesis using that by (simp add: write_binary_in_iarray_def)
qed

lemma pfor_encode_loop_bits:
  assumes b: "1 \<le> b" "b \<le> 32"
  shows "\<lbrakk>\<forall>w\<in>set encoded. w < 2 ^ 32; (i + length rest) * b \<le> 32 * length encoded;
          \<forall>p. i * b \<le> p \<and> p < 32 * length encoded \<longrightarrow> \<not> array_bit 5 encoded p\<rbrakk> \<Longrightarrow>
    \<exists>encoded'. pfor_encode_loop b rest i encoded (i * b) idxs exs
          = Inr (encoded', (i + length rest) * b, idxs @ pfor_exception_indexes b i rest,
                 exs @ pfor_exception_highs b rest)
      \<and> length encoded' = length encoded \<and> (\<forall>w\<in>set encoded'. w < 2 ^ 32)
      \<and> (\<forall>j<length rest. \<forall>t<b. array_bit 5 encoded' ((i + j) * b + b - 1 - t) = bit (take_bit b (rest ! j)) t)
      \<and> (\<forall>p < i * b. array_bit 5 encoded' p = array_bit 5 encoded p)"
proof (induction rest arbitrary: i encoded idxs exs)
  case Nil
  then show ?case by (simp add: pfor_exception_highs_def)
next
  case (Cons number rest)
  define low where "low = take_bit b number"
  define idxs1 where "idxs1 = (if number > MASKS b then idxs @ [i] else idxs)"
  define exs1 where "exs1 = (if number > MASKS b then exs @ [drop_bit b number] else exs)"
  have size: "i * b + b \<le> 32 * length encoded" using Cons.prems(2) by (simp add: algebra_simps)
  have zero: "\<forall>p. i * b \<le> p \<and> p < i * b + b \<longrightarrow> \<not> array_bit 5 encoded p"
    using Cons.prems(3) size by auto
  have lowlt: "low < 2 ^ b" by (simp add: low_def)
  from write_binary_in_iarray_then_bits[OF Cons.prems(1) size zero lowlt b(2)]
  obtain a1 where w: "write_binary_in_iarray encoded (i * b) low b = Inr (a1, i * b + b)"
    and l1: "length a1 = length encoded" and w1: "\<forall>w\<in>set a1. w < 2 ^ 32"
    and in1: "\<And>t. t < b \<Longrightarrow> array_bit 5 a1 (i * b + b - 1 - t) = bit low t"
    and out1: "\<And>p. \<not> (i * b \<le> p \<and> p < i * b + b) \<Longrightarrow> array_bit 5 a1 p = array_bit 5 encoded p"
    by blast
  have size1: "(i + 1 + length rest) * b \<le> 32 * length a1" using Cons.prems(2) l1 by simp
  have zero1: "\<forall>p. (i + 1) * b \<le> p \<and> p < 32 * length a1 \<longrightarrow> \<not> array_bit 5 a1 p"
  proof (intro allI impI)
    fix p assume p: "(i + 1) * b \<le> p \<and> p < 32 * length a1"
    then have "\<not> (i * b \<le> p \<and> p < i * b + b)" by simp
    then have "array_bit 5 a1 p = array_bit 5 encoded p" by (rule out1)
    moreover have "i * b \<le> p" using p by simp
    ultimately show "\<not> array_bit 5 a1 p" using Cons.prems(3) p l1 by simp
  qed
  from Cons.IH[OF w1 size1 zero1, of idxs1 exs1]
  obtain encoded' where
    r: "pfor_encode_loop b rest (i + 1) a1 ((i + 1) * b) idxs1 exs1
          = Inr (encoded', (i + 1 + length rest) * b, idxs1 @ pfor_exception_indexes b (i + 1) rest,
                 exs1 @ pfor_exception_highs b rest)"
    and l: "length encoded' = length a1" and ws: "\<forall>w\<in>set encoded'. w < 2 ^ 32"
    and inr: "\<And>j t. j < length rest \<Longrightarrow> t < b \<Longrightarrow>
               array_bit 5 encoded' ((i + 1 + j) * b + b - 1 - t) = bit (take_bit b (rest ! j)) t"
    and outr: "\<And>p. p < (i + 1) * b \<Longrightarrow> array_bit 5 encoded' p = array_bit 5 a1 p"
    by blast
  have res: "pfor_encode_loop b (number # rest) i encoded (i * b) idxs exs
          = Inr (encoded', (i + length (number # rest)) * b,
                 idxs @ pfor_exception_indexes b i (number # rest),
                 exs @ pfor_exception_highs b (number # rest))"
    using w r
    by (simp add: Let_def pfor_low_bits low_def[symmetric] idxs1_def exs1_def
        pfor_exception_highs_def algebra_simps)
  have bits: "array_bit 5 encoded' ((i + j) * b + b - 1 - t) = bit (take_bit b ((number # rest) ! j)) t"
    if "j < length (number # rest)" "t < b" for j t
  proof (cases j)
    case 0
    have "i * b + b - 1 - t < (i + 1) * b" using that(2) by simp
    then have "array_bit 5 encoded' (i * b + b - 1 - t) = array_bit 5 a1 (i * b + b - 1 - t)"
      by (rule outr)
    then show ?thesis using 0 in1[OF that(2)] by (simp add: low_def)
  next
    case (Suc j')
    then have "j' < length rest" using that(1) by simp
    from inr[OF this that(2)] show ?thesis using Suc by simp
  qed
  have frame: "array_bit 5 encoded' p = array_bit 5 encoded p" if "p < i * b" for p
  proof -
    have "array_bit 5 encoded' p = array_bit 5 a1 p" using that by (intro outr) simp
    also have "\<dots> = array_bit 5 encoded p" using that by (intro out1) simp
    finally show ?thesis .
  qed
  show ?case using res l l1 ws bits frame by auto
qed


lemma ceil_div_ge: "0 < b \<Longrightarrow> a \<le> b * ceil_div a b"
proof -
  assume b: "0 < b"
  have "a + b - 1 = b * ((a + b - 1) div b) + (a + b - 1) mod b" by simp
  moreover have "(a + b - 1) mod b < b" using b by simp
  ultimately show ?thesis unfolding ceil_div_def using b by linarith
qed

lemma ceil_div_le: "0 < b \<Longrightarrow> a \<le> b * m \<Longrightarrow> ceil_div a b \<le> m"
proof -
  assume b: "0 < b" and le: "a \<le> b * m"
  have "a + b - 1 < b * m + b" using le b by linarith
  then have "a + b - 1 < (m + 1) * b" by (simp add: algebra_simps)
  then have "(a + b - 1) div b < m + 1" using b by (simp add: less_mult_imp_div_less)
  then show ?thesis by (simp add: ceil_div_def)
qed

lemma read_binary_from_iarray_append:
  assumes "offset + bits \<le> 32 * length array" "0 < bits"
  shows "read_binary_from_iarray (array @ rest) offset bits = read_binary_from_iarray array offset bits"
proof -
  define idx where "idx = offset div 32"
  define bi where "bi = offset mod 32"
  define rd where "rd = 32 - bi"
  have off: "offset = 32 * idx + bi" "bi < 32" by (simp_all add: idx_def bi_def)
  have i0: "idx < length array" using assms off by linarith
  have i1: "idx + 1 < length array" if "bits > rd"
    using that assms off unfolding rd_def by linarith
  have a: "idx = drop_bit 5 offset" "bi = offset AND 31"
    by (simp_all add: idx_def bi_def drop_bit_eq_div and_31_mod)
  show ?thesis
    unfolding read_binary_from_iarray_aux[OF a rd_def]
    using i0 i1 by (auto simp: nth_append)
qed

lemma array_bit_take: "p < 32 * m \<Longrightarrow> array_bit 5 (take m array) p = array_bit 5 array p"
proof -
  assume "p < 32 * m"
  then have "p div 32 < m" by (simp add: less_mult_imp_div_less mult.commute)
  then show ?thesis by (simp add: array_bit_def)
qed

lemma pfor_read_slot:
  assumes b: "1 \<le> b" "b \<le> 32"
    and ws: "\<forall>w\<in>set array. w < 2 ^ 32"
    and size: "i * b + b \<le> 32 * length array"
    and bits: "\<And>t. t < b \<Longrightarrow> array_bit 5 array (i * b + b - 1 - t) = bit (take_bit b number) t"
  shows "read_binary_from_iarray (array @ rest) (i * b) b = Inr (take_bit b number)"
proof -
  have pos: "0 < b" using b by simp
  have le: "b \<le> 32 + (32 - (i * b) mod 32)" using b by simp
  from read_binary_from_iarray_bits[OF ws size pos le]
  obtain v where r: "read_binary_from_iarray array (i * b) b = Inr v" and vlt: "v < 2 ^ b"
    and vb: "\<And>t. t < b \<Longrightarrow> bit v t = array_bit 5 array (i * b + b - 1 - t)"
    by blast
  have "v = take_bit b number"
    by (rule nat_eq_of_bits[of b]) (use vb bits vlt in simp_all)
  then show ?thesis
    using r read_binary_from_iarray_append[OF size pos, of rest] by simp
qed

lemma pfor_decode_loop_values:
  "(\<And>j. j < nums \<Longrightarrow> read_binary_from_iarray encoded ((i + j) * b) b = Inr (f (i + j))) \<Longrightarrow>
   pfor_decode_loop encoded b nums (i * b) = Inr (map f [i..<i + nums])"
proof (induction nums arbitrary: i)
  case 0
  then show ?case by simp
next
  case (Suc nums)
  have h: "read_binary_from_iarray encoded (i * b) b = Inr (f i)"
    using Suc.prems[of 0] by simp
  have "pfor_decode_loop encoded b nums ((i + 1) * b) = Inr (map f [i + 1..<i + 1 + nums])"
    by (rule Suc.IH) (use Suc.prems[of "Suc j" for j] in simp)
  then show ?case using h by (simp add: upt_rec[of i] algebra_simps)
qed

lemma pfor_merge_exceptions_loop:
  "length decoded = i + length rest \<Longrightarrow> \<forall>j < length rest. decoded ! (i + j) = take_bit b (rest ! j) \<Longrightarrow>
   merge_exceptions_loop decoded (pfor_exception_indexes b i rest) (pfor_exception_highs b rest) b
     = Inr (take i decoded @ rest)"
proof (induction rest arbitrary: i decoded)
  case Nil
  then show ?case by (simp add: pfor_exception_highs_def)
next
  case (Cons number rest)
  have d0: "decoded ! i = take_bit b number" using Cons.prems(2) by force
  have ilt: "i < length decoded" using Cons.prems(1) by simp
  show ?case
  proof (cases "number > MASKS b")
    case True
    define d1 where "d1 = decoded[i := decoded ! i + push_bit b (drop_bit b number)]"
    have "number mod 2 ^ b + number div 2 ^ b * 2 ^ b = number"
      by (metis add.commute div_mult_mod_eq)
    then have "take_bit b number + push_bit b (drop_bit b number) = number"
      by (simp add: take_bit_eq_mod push_bit_eq_mult drop_bit_eq_div)
    then have d1: "d1 = decoded[i := number]" by (simp add: d1_def d0)
    have l1: "length d1 = (i + 1) + length rest" using Cons.prems(1) by (simp add: d1)
    have v1: "\<forall>j < length rest. d1 ! (i + 1 + j) = take_bit b (rest ! j)"
      using Cons.prems(2) by (auto simp: d1)
    have "merge_exceptions_loop d1 (pfor_exception_indexes b (i + 1) rest) (pfor_exception_highs b rest) b
            = Inr (take (i + 1) d1 @ rest)"
      by (rule Cons.IH[OF l1 v1])
    moreover have "take (i + 1) d1 = take i decoded @ [number]"
      using ilt by (simp add: d1 take_Suc_conv_app_nth)
    ultimately show ?thesis
      using True ilt by (simp add: pfor_exception_highs_def Let_def d1_def)
  next
    case False
    then have n: "take_bit b number = number" using pfor_low_bits[of b number] by simp
    have l1: "length decoded = (i + 1) + length rest" using Cons.prems(1) by simp
    have v1: "\<forall>j < length rest. decoded ! (i + 1 + j) = take_bit b (rest ! j)"
      using Cons.prems(2) by force
    have "merge_exceptions_loop decoded (pfor_exception_indexes b (i + 1) rest) (pfor_exception_highs b rest) b
            = Inr (take (i + 1) decoded @ rest)"
      by (rule Cons.IH[OF l1 v1])
    moreover have "take (i + 1) decoded = take i decoded @ [number]"
      using ilt d0 n by (simp add: take_Suc_conv_app_nth)
    ultimately show ?thesis
      using False by (simp add: pfor_exception_highs_def)
  qed
qed

lemma pfor_exception_lengths:
  "length (pfor_exception_indexes b i rest) = length (filter (\<lambda>number. number > MASKS b) rest)"
  "length (pfor_exception_highs b rest) = length (filter (\<lambda>number. number > MASKS b) rest)"
  by (induction rest arbitrary: i) (auto simp: pfor_exception_highs_def)

lemma pfor_exception_indexes_range:
  "x \<in> set (pfor_exception_indexes b i rest) \<Longrightarrow> i \<le> x \<and> x < i + length rest"
proof (induction rest arbitrary: i)
  case Nil
  then show ?case by simp
next
  case (Cons number rest)
  then have "x = i \<or> x \<in> set (pfor_exception_indexes b (i + 1) rest)"
    by (auto split: if_splits)
  then show ?case
  proof
    assume "x = i"
    then show ?thesis by simp
  next
    assume "x \<in> set (pfor_exception_indexes b (i + 1) rest)"
    from Cons.IH[OF this] show ?thesis by simp
  qed
qed


lemma pfor_encode_slots:
  fixes numbers :: "nat list"
  defines "b \<equiv> find_optimal_b numbers"
  defines "n \<equiv> length numbers"
  shows "\<exists>slots. length slots = ceil_div (n * b) 32 \<and> (\<forall>w\<in>set slots. w < 2 ^ 32)
      \<and> (\<forall>j<n. \<forall>t<b. array_bit 5 slots (j * b + b - 1 - t) = bit (take_bit b (numbers ! j)) t)
      \<and> pfor_encode numbers =
          (case s16_encode (pfor_exception_indexes b 0 numbers @ pfor_exception_highs b numbers) of
             Inl e \<Rightarrow> Inl e
           | Inr exception_encode \<Rightarrow>
               Inr ([push_bit 27 (b - 1) + length (pfor_exception_highs b numbers)] @ slots
                    @ exception_encode))"
proof -
  have b: "1 \<le> b" "b \<le> 32" unfolding b_def by (rule find_optimal_b_props)+
  define q where "q = 32 div b"
  define N where "N = ceil_div n q"
  define used where "used = ceil_div (n * b) 32"
  have qpos: "0 < q" using b by (simp add: q_def div_greater_zero_iff)
  have qb: "q * b \<le> 32" by (simp add: q_def)
  have "n \<le> q * N" unfolding N_def by (rule ceil_div_ge[OF qpos])
  then have "n * b \<le> (q * N) * b" by (rule mult_right_mono) simp
  also have "\<dots> = (q * b) * N" by (simp add: algebra_simps)
  also have "\<dots> \<le> 32 * N" using qb by (rule mult_right_mono) simp
  finally have size: "n * b \<le> 32 * N" .
  have usedN: "used \<le> N" unfolding used_def by (rule ceil_div_le) (use size in simp_all)
  have used_ge: "n * b \<le> 32 * used" unfolding used_def by (rule ceil_div_ge) simp
  have z: "\<forall>w\<in>set (replicate N (0::nat)). w < 2 ^ 32" by simp
  have s0: "(0 + length numbers) * b \<le> 32 * length (replicate N (0::nat))"
    using size by (simp add: n_def)
  have z0: "\<forall>p. 0 * b \<le> p \<and> p < 32 * length (replicate N (0::nat)) \<longrightarrow> \<not> array_bit 5 (replicate N 0) p"
  proof (intro allI impI)
    fix p assume "0 * b \<le> p \<and> p < 32 * length (replicate N (0::nat))"
    then have "p div 2 ^ 5 < N" by (simp add: less_mult_imp_div_less mult.commute)
    then show "\<not> array_bit 5 (replicate N 0) p" by (rule array_bit_zeros)
  qed
  from pfor_encode_loop_bits[OF b z s0 z0, of "[]" "[]"]
  obtain encoded' where
    r: "pfor_encode_loop b numbers 0 (replicate N 0) 0 [] []
          = Inr (encoded', n * b, pfor_exception_indexes b 0 numbers, pfor_exception_highs b numbers)"
    and l: "length encoded' = N" and ws: "\<forall>w\<in>set encoded'. w < 2 ^ 32"
    and bits: "\<And>j t. j < n \<Longrightarrow> t < b \<Longrightarrow>
         array_bit 5 encoded' (j * b + b - 1 - t) = bit (take_bit b (numbers ! j)) t"
    by (auto simp: n_def)
  define slots where "slots = take used encoded'"
  have sl: "length slots = used" using usedN l by (simp add: slots_def)
  have sw: "\<forall>w\<in>set slots. w < 2 ^ 32" using ws by (auto simp: slots_def dest: in_set_takeD)
  have sb: "array_bit 5 slots (j * b + b - 1 - t) = bit (take_bit b (numbers ! j)) t"
    if "j < n" "t < b" for j t
  proof -
    have "j * b + b \<le> n * b"
    proof -
      have "(j + 1) * b \<le> n * b" using that(1) by (intro mult_right_mono) simp_all
      then show ?thesis by simp
    qed
    then have "j * b + b - 1 - t < 32 * used" using used_ge b that(2) by linarith
    then have "array_bit 5 (take used encoded') (j * b + b - 1 - t) = array_bit 5 encoded' (j * b + b - 1 - t)"
      by (rule array_bit_take)
    then show ?thesis unfolding slots_def using bits[OF that] by simp
  qed
  have "pfor_encode numbers =
          (case s16_encode (pfor_exception_indexes b 0 numbers @ pfor_exception_highs b numbers) of
             Inl e \<Rightarrow> Inl e
           | Inr exception_encode \<Rightarrow>
               Inr ([push_bit 27 (b - 1) + length (pfor_exception_highs b numbers)] @ slots
                    @ exception_encode))"
    unfolding pfor_encode_def Let_def b_def[symmetric] n_def[symmetric] q_def[symmetric]
      N_def[symmetric] r
    by (simp add: B_HEADER_SIZE_def used_def slots_def split: sum.split)
  then show ?thesis using sl sw sb unfolding used_def by blast
qed

lemma pfor_header_word:
  assumes "1 \<le> b" "c < 2 ^ 27"
  shows "drop_bit 27 (push_bit 27 (b - 1) + c) + 1 = b"
    and "(push_bit 27 (b - 1) + c) AND MASKS 27 = c"
    and "push_bit 27 (b - 1) + c = push_bit 27 (b - 1) OR c"
proof -
  show "drop_bit 27 (push_bit 27 (b - 1) + c) + 1 = b"
    using assms by (simp add: drop_bit_eq_div push_bit_eq_mult)
  show "(push_bit 27 (b - 1) + c) AND MASKS 27 = c"
    using assms by (simp add: and_MASKS push_bit_eq_mult)
  have "\<And>j. \<not> bit (push_bit 27 (b - 1)) j \<or> \<not> bit c j"
  proof -
    fix j
    have "bit c j \<Longrightarrow> j < 27" using assms(2) nat_less_exp_iff_bit[of c 27] by (meson not_le)
    then show "\<not> bit (push_bit 27 (b - 1)) j \<or> \<not> bit c j"
      by (auto simp: bit_push_bit_iff)
  qed
  then show "push_bit 27 (b - 1) + c = push_bit 27 (b - 1) OR c" by (rule disjunctive_add)
qed

lemma pfor_exception_highs_positive:
  "x \<in> set (pfor_exception_highs b numbers) \<Longrightarrow> 0 < x"
proof -
  assume "x \<in> set (pfor_exception_highs b numbers)"
  then obtain number where n: "number \<in> set numbers" "number > MASKS b" "x = drop_bit b number"
    by (auto simp: pfor_exception_highs_def)
  then have "2 ^ b \<le> number" by (simp add: MASKS_eq)
  then have "1 \<le> number div 2 ^ b" by (simp add: div_greater_zero_iff Suc_le_eq)
  then show ?thesis using n(3) by (simp add: drop_bit_eq_div)
qed

lemma pfor_decode_of_parts:
  fixes numbers :: "nat list"
  assumes b: "1 \<le> b" "b \<le> 32"
    and c: "c = length (pfor_exception_highs b numbers)" "c < 2 ^ 27"
    and sl: "length slots = ceil_div (length numbers * b) 32" and sw: "\<forall>w\<in>set slots. w < 2 ^ 32"
    and sb: "\<And>j t. j < length numbers \<Longrightarrow> t < b \<Longrightarrow>
               array_bit 5 slots (j * b + b - 1 - t) = bit (take_bit b (numbers ! j)) t"
    and s16: "s16_decode exception_encode True
               = Inr (pfor_exception_indexes b 0 numbers @ pfor_exception_highs b numbers)"
  shows "pfor_decode ([push_bit 27 (b - 1) + c] @ slots @ exception_encode) (length numbers) = Inr numbers"
proof -
  define n where "n = length numbers"
  define lows where "lows = map (\<lambda>j. take_bit b (numbers ! j)) [0..<0 + n]"
  have used_ge: "n * b \<le> 32 * length slots" unfolding sl n_def by (rule ceil_div_ge) simp
  have hd: "get_header ([push_bit 27 (b - 1) + c] @ slots @ exception_encode) = Inr (b, c)"
    using pfor_header_word(1,2)[OF b(1) c(2)] by (simp add: get_header_def B_HEADER_SIZE_def)
  have rd: "read_binary_from_iarray (slots @ exception_encode) ((0 + j) * b) b
              = Inr (take_bit b (numbers ! (0 + j)))" if "j < n" for j
  proof -
    have "(j + 1) * b \<le> n * b" using that by (intro mult_right_mono) simp_all
    then have size: "j * b + b \<le> 32 * length slots" using used_ge by simp
    show ?thesis
      using pfor_read_slot[OF b sw size, of "numbers ! j" exception_encode] sb[of j] that
      by (simp add: n_def)
  qed
  have loop: "pfor_decode_loop (slots @ exception_encode) b n 0 = Inr lows"
    using pfor_decode_loop_values[of n "slots @ exception_encode" 0 b "\<lambda>j. take_bit b (numbers ! j)"] rd
    by (simp add: lows_def)
  have ll: "length lows = 0 + length numbers" by (simp add: lows_def n_def)
  have lv: "\<forall>j < length numbers. lows ! (0 + j) = take_bit b (numbers ! j)"
    by (simp add: lows_def n_def)
  have merged: "merge_exceptions_loop lows (pfor_exception_indexes b 0 numbers)
                  (pfor_exception_highs b numbers) b = Inr numbers"
    using pfor_merge_exceptions_loop[OF ll lv] by simp
  have li: "length (pfor_exception_indexes b 0 numbers) = c"
    using pfor_exception_lengths(1)[of b 0 numbers] pfor_exception_lengths(2)[of b numbers] c(1) by simp
  have mrg: "merge_exceptions lows (pfor_exception_indexes b 0 numbers @ pfor_exception_highs b numbers) b
               = Inr numbers"
    unfolding merge_exceptions_def Let_def using li c(1) merged
    by (simp add: drop_bit_eq_div)
  have tk: "take (push_bit 1 c) (pfor_exception_indexes b 0 numbers @ pfor_exception_highs b numbers)
              = pfor_exception_indexes b 0 numbers @ pfor_exception_highs b numbers"
    using li c(1) by (simp add: push_bit_eq_mult)
  have dr: "drop (ceil_div (n * b) 32) (slots @ exception_encode) = exception_encode"
    using sl by (simp add: n_def)
  show ?thesis
  proof (cases "c > 0")
    case True
    show ?thesis
      unfolding pfor_decode_def hd
      using True loop dr s16 tk mrg
      by (simp add: n_def[symmetric] Let_def)
  next
    case False
    then have "pfor_exception_indexes b 0 numbers = []" "pfor_exception_highs b numbers = []"
      using li c(1) by simp_all
    then have "lows = numbers" using merged by simp
    then show ?thesis
      unfolding pfor_decode_def hd
      using False loop by (simp add: n_def[symmetric] Let_def)
  qed
qed

lemma pfor_encode_succeeds:
  fixes numbers :: "nat list"
  defines "b \<equiv> find_optimal_b numbers"
  defines "c \<equiv> length (filter (\<lambda>number. number > MASKS b) numbers)"
  assumes len: "length numbers < 2 ^ 27"
    and high: "\<forall>x\<in>set numbers. drop_bit b x < 2 ^ 28"
  shows "\<exists>encoded. pfor_encode numbers = Inr ([push_bit 27 (b - 1) + c] @ encoded)
           \<and> pfor_decode ([push_bit 27 (b - 1) + c] @ encoded) (length numbers) = Inr numbers"
proof -
  have b: "1 \<le> b" "b \<le> 32" unfolding b_def by (rule find_optimal_b_props)+
  define idxs where "idxs = pfor_exception_indexes b 0 numbers"
  define highs where "highs = pfor_exception_highs b numbers"
  have ch: "c = length highs" unfolding c_def highs_def by (simp add: pfor_exception_lengths)
  have "c \<le> length numbers" unfolding c_def by (rule length_filter_le)
  then have c27: "c < 2 ^ 27" using len by simp
  have small: "\<forall>x \<in> set (idxs @ highs). x < 2 ^ 28"
  proof
    fix x assume "x \<in> set (idxs @ highs)"
    then consider "x \<in> set idxs" | "x \<in> set highs" by auto
    then show "x < 2 ^ 28"
    proof cases
      case 1
      then have "x < length numbers" using pfor_exception_indexes_range[of x b 0 numbers]
        by (simp add: idxs_def)
      then show ?thesis using len by simp
    next
      case 2
      then show ?thesis using high by (auto simp: highs_def pfor_exception_highs_def)
    qed
  qed
  have lastnz: "idxs @ highs = [] \<or> last (idxs @ highs) \<noteq> 0"
  proof (cases "highs = []")
    case True
    then have "idxs = []"
      using pfor_exception_lengths(1)[of b 0 numbers] pfor_exception_lengths(2)[of b numbers]
      by (simp add: idxs_def highs_def)
    then show ?thesis using True by simp
  next
    case False
    then have "last highs \<in> set highs" by simp
    then have "0 < last highs" unfolding highs_def by (rule pfor_exception_highs_positive)
    then show ?thesis using False by simp
  qed
  from s16_roundtrip[OF small lastnz]
  obtain exception_encode where e: "s16_encode (idxs @ highs) = Inr exception_encode"
    and d: "s16_decode exception_encode True = Inr (idxs @ highs)"
    by blast
  from pfor_encode_slots[of numbers, folded b_def]
  obtain slots where sl: "length slots = ceil_div (length numbers * b) 32"
    and sw: "\<forall>w\<in>set slots. w < 2 ^ 32"
    and sb: "\<And>j t. j < length numbers \<Longrightarrow> t < b \<Longrightarrow>
               array_bit 5 slots (j * b + b - 1 - t) = bit (take_bit b (numbers ! j)) t"
    and r: "pfor_encode numbers =
          (case s16_encode (idxs @ highs) of
             Inl e \<Rightarrow> Inl e
           | Inr exception_encode \<Rightarrow>
               Inr ([push_bit 27 (b - 1) + length highs] @ slots @ exception_encode))"
    unfolding idxs_def highs_def by blast
  have enc: "pfor_encode numbers = Inr ([push_bit 27 (b - 1) + c] @ slots @ exception_encode)"
    using r e ch by simp
  have "pfor_decode ([push_bit 27 (b - 1) + c] @ slots @ exception_encode) (length numbers) = Inr numbers"
    by (rule pfor_decode_of_parts[OF b ch[unfolded highs_def] c27 sl sw sb d[unfolded idxs_def highs_def]])
  then show ?thesis using enc by blast
qed


subsection \<open>Gaps round trip\<close>





subsection \<open>BitByteArray: the invariant\<close>

lemma int_and_7_mod: "(x::int) AND 7 = x mod 8"
proof -
  have "x AND mask 3 = take_bit 3 x" by (simp add: take_bit_eq_mask)
  then show ?thesis by (simp add: take_bit_eq_mod mask_eq_exp_minus_1)
qed

lemma nat_int_and_7: "nat (int n AND 7) = n mod 8"
proof -
  have "int n mod 8 = int (n mod 8)" by (simp add: zmod_int)
  then show ?thesis unfolding int_and_7_mod by simp
qed

lemma nat_and_255_mod: "(x::nat) AND 255 = x mod 256"
proof -
  have "x AND mask 8 = take_bit 8 x" by (simp add: take_bit_eq_mask)
  then show ?thesis by (simp add: take_bit_eq_mod mask_eq_exp_minus_1)
qed

lemma dvd_add_less_power:
  fixes x y :: nat
  assumes "2 ^ a dvd x" "x < 2 ^ (a + b)" "y < 2 ^ a"
  shows "x + y < 2 ^ (a + b)"
proof -
  obtain k where k: "x = 2 ^ a * k" using assms(1) by (auto simp: dvd_def)
  have "2 ^ a * k < 2 ^ a * 2 ^ b" using assms(2) k by (simp add: power_add)
  then have "k < 2 ^ b" by simp
  then have "Suc k \<le> 2 ^ b" by simp
  then have "2 ^ a * Suc k \<le> 2 ^ a * 2 ^ b" by (rule mult_le_mono2)
  moreover have "x + y < 2 ^ a * Suc k" using k assms(3) by simp
  ultimately show ?thesis by (simp add: power_add)
qed

lemma div_power_less:
  fixes x :: nat
  assumes "x < 2 ^ (a + b)"
  shows "x div 2 ^ b < 2 ^ a"
  using assms by (simp add: less_mult_imp_div_less power_add)

lemma dvd_div_power:
  fixes x :: nat
  assumes "2 ^ p dvd x" "q \<le> p"
  shows "2 ^ (p - q) dvd x div 2 ^ q"
proof -
  obtain e where e: "x = 2 ^ p * e" using assms(1) by (auto simp: dvd_def)
  have "(2::nat) ^ p = 2 ^ q * 2 ^ (p - q)" using assms(2) by (simp flip: power_add)
  then have "x = 2 ^ q * (2 ^ (p - q) * e)" using e by simp
  then have "x div 2 ^ q = 2 ^ (p - q) * e" by simp
  then show ?thesis by simp
qed

lemma dvd_and_255:
  fixes x :: nat
  assumes "2 ^ a dvd x" "a \<le> 8"
  shows "2 ^ a dvd x AND 255"
proof -
  have "(2::nat) ^ a dvd 2 ^ 8" using assms(2) by (rule le_imp_power_dvd)
  then have "(2::nat) ^ a dvd 256" by simp
  then show ?thesis unfolding nat_and_255_mod using assms(1) by (simp add: dvd_mod)
qed

lemma and_255_less: "(x::nat) AND 255 < 256"
  unfolding nat_and_255_mod by simp

lemma to_byte_eq: "to_byte number = [number AND 255]"
  by (simp add: to_byte_def to_bytes_def)

lemma recompute_bit_pointer_eq:
  assumes "padding < 8" "bit_pointer self < 8"
  shows "recompute_bit_pointer padding self
         = Inr (self\<lparr>bit_pointer := (if padding = 0 then bit_pointer self
                                      else (bit_pointer self + 8 - padding) mod 8)\<rparr>)"
proof (cases "padding = 0")
  case True
  then show ?thesis by (simp add: recompute_bit_pointer_def validate_padding_def)
next
  case False
  have "int (bit_pointer self) + (8 - int padding) = int (bit_pointer self + 8 - padding)"
    using assms by simp
  then have "nat ((int (bit_pointer self) + (8 - int padding)) AND 7) = (bit_pointer self + 8 - padding) mod 8"
    by (simp only: nat_int_and_7)
  then show ?thesis using False by (simp add: recompute_bit_pointer_def validate_padding_def Let_def)
qed


lemma last_list_update_last:
  "xs \<noteq> [] \<Longrightarrow> last (xs[length xs - Suc 0 := v]) = v"
  by (simp add: last_list_update)

lemma bba_append_wf:
  assumes wf: "bba_wf self" and el: "element < 256" and p: "padding < 8"
    and d: "2 ^ padding dvd element"
  shows "\<exists>self'. bba_append element padding self = Inr self' \<and> bba_wf self'"
proof (cases "bit_pointer self = 0")
  case True
  define s1 where "s1 = self\<lparr>stream := stream self @ to_byte element\<rparr>"
  have bp1: "bit_pointer s1 = 0" using True by (simp add: s1_def)
  have a: "bba_append element padding self = recompute_bit_pointer padding s1"
    using True by (simp add: bba_append_def validate_padding_def s1_def)
  define s2 where "s2 = s1\<lparr>bit_pointer := (if padding = 0 then 0 else (8 - padding) mod 8)\<rparr>"
  have r: "recompute_bit_pointer padding s1 = Inr s2"
    using recompute_bit_pointer_eq[OF p, of s1] bp1 by (simp add: s2_def)
  have st: "stream s2 = stream self @ [element AND 255]"
    by (simp add: s2_def s1_def to_byte_eq)
  have bp2: "bit_pointer s2 = (if padding = 0 then 0 else 8 - padding)"
    using p by (simp add: s2_def)
  have b: "\<forall>byte \<in> set (stream s2). byte < 256"
    using wf and_255_less[of element] unfolding st bba_wf_def by auto
  have l: "2 ^ padding dvd last (stream s2)"
    unfolding st using dvd_and_255[OF d] p by simp
  have "bba_wf s2"
    unfolding bba_wf_def using b l p bp2 st by auto
  then show ?thesis using a r by simp
next
  case False
  define ofs where "ofs = bit_pointer self"
  have o: "0 < ofs" "ofs < 8" using False wf by (auto simp: ofs_def bba_wf_def)
  have ne: "stream self \<noteq> []" and dl: "2 ^ (8 - ofs) dvd last (stream self)"
    using False wf by (auto simp: ofs_def bba_wf_def)
  have lt: "last (stream self) < 256" using wf ne by (simp add: bba_wf_def)
  define t where "t = drop_bit ofs element"
  have "element < 2 ^ ((8 - ofs) + ofs)" using el o by simp
  then have t: "t < 2 ^ (8 - ofs)" unfolding t_def drop_bit_eq_div by (rule div_power_less)
  have "last (stream self) < 2 ^ ((8 - ofs) + ofs)" using lt o by simp
  from dvd_add_less_power[OF dl this t] have sum: "last (stream self) + t < 256"
    using o by simp
  define s1 where "s1 = self\<lparr>stream := (stream self)[length (stream self) - 1 := last (stream self) + t]\<rparr>"
  define s2 where "s2 = (if has_to_write_carried padding ofs
                          then s1\<lparr>stream := stream s1 @ to_byte (to_left element (8 - ofs))\<rparr> else s1)"
  have a: "bba_append element padding self = recompute_bit_pointer padding s2"
    using False ne sum o
    by (simp add: bba_append_def validate_padding_def Let_def s1_def s2_def ofs_def[symmetric] t_def[symmetric])
  have bp2: "bit_pointer s2 = ofs" by (simp add: s2_def s1_def ofs_def)
  define s3 where "s3 = s2\<lparr>bit_pointer := (if padding = 0 then ofs else (ofs + 8 - padding) mod 8)\<rparr>"
  have r: "recompute_bit_pointer padding s2 = Inr s3"
    using recompute_bit_pointer_eq[OF p, of s2] bp2 o by (simp add: s3_def)
  have st1: "stream s1 \<noteq> []" "last (stream s1) = last (stream self) + t"
    using ne by (simp_all add: s1_def last_list_update_last)
  have b1: "\<forall>byte \<in> set (stream s1). byte < 256"
  proof
    fix byte assume "byte \<in> set (stream s1)"
    then have "byte \<in> insert (last (stream self) + t) (set (stream self))"
      using set_update_subset_insert[of "stream self"] by (auto simp: s1_def)
    then show "byte < 256" using sum wf by (auto simp: bba_wf_def)
  qed
  have ca: "to_left element (8 - ofs) AND 255 = to_left element (8 - ofs)"
    by (simp add: to_left_def and.assoc)
  have b3: "\<forall>byte \<in> set (stream s3). byte < 256"
    using b1 and_255_less[of "to_left element (8 - ofs)"]
    by (auto simp: s3_def s2_def to_byte_eq)
  have ne3: "stream s3 \<noteq> []" using st1 by (simp add: s3_def s2_def)
  have "bit_pointer s3 < 8" using o by (simp add: s3_def)
  moreover have "2 ^ (8 - bit_pointer s3) dvd last (stream s3)" if nz: "bit_pointer s3 \<noteq> 0"
  proof (cases "padding < ofs")
    case True
    then have h: "has_to_write_carried padding ofs" by (simp add: has_to_write_carried_def)
    have e: "ofs + 8 - padding = (ofs - padding) + 8" using True by arith
    have m: "(ofs + 8 - padding) mod 8 = ofs - padding" unfolding e using o by simp
    have bp3: "bit_pointer s3 = ofs - padding"
      unfolding s3_def using True m by (cases "padding = 0") simp_all
    have l3: "last (stream s3) = push_bit (8 - ofs) element AND 255"
      using h by (simp add: s3_def s2_def to_byte_eq to_left_def and.assoc)
    have "(2::nat) ^ ((8 - ofs) + padding) dvd push_bit (8 - ofs) element"
      unfolding push_bit_eq_mult power_add using d by (simp add: mult.commute mult_dvd_mono)
    moreover have "8 - (ofs - padding) = (8 - ofs) + padding" using True o by simp
    ultimately have "(2::nat) ^ (8 - (ofs - padding)) dvd push_bit (8 - ofs) element" by simp
    then show ?thesis unfolding bp3 l3 by (rule dvd_and_255) simp
  next
    case False
    then have h: "\<not> has_to_write_carried padding ofs" by (simp add: has_to_write_carried_def)
    have pn: "padding \<noteq> 0" using False o by simp
    have "ofs \<noteq> padding" using nz pn o by (auto simp: s3_def)
    then have lt': "ofs < padding" using False by simp
    then have bp3: "bit_pointer s3 = ofs + 8 - padding"
      using pn o p by (simp add: s3_def)
    have e8: "8 - (ofs + 8 - padding) = padding - ofs" using lt' p by simp
    have l3: "last (stream s3) = last (stream self) + t"
      using h st1 by (simp add: s3_def s2_def)
    have "(2::nat) ^ (padding - ofs) dvd 2 ^ (8 - ofs)"
      using p by (intro le_imp_power_dvd) simp
    then have d1: "2 ^ (padding - ofs) dvd last (stream self)" using dl by (rule dvd_trans)
    have d2: "2 ^ (padding - ofs) dvd t"
      unfolding t_def drop_bit_eq_div using d lt' by (intro dvd_div_power) simp_all
    show ?thesis unfolding bp3 e8 l3 using d1 d2 by (rule dvd_add)
  qed
  ultimately have "bba_wf s3" unfolding bba_wf_def using b3 ne3 by blast
  then show ?thesis using a r by simp
qed


subsection \<open>Variable-Byte round trip\<close>

lemma vb_encode_loop_append:
  "vb_encode_loop number encoded = vb_encode_loop number [] @ encoded"
proof (induction "nat number" arbitrary: number encoded rule: less_induct)
  case less
  show ?case
  proof (cases "number < 128")
    case True
    then show ?thesis by (simp add: vb_encode_loop.simps[of number])
  next
    case False
    then have "nat (drop_bit 7 number) < nat number" by (simp add: drop_bit_eq_div)
    from less[OF this] have
      "vb_encode_loop (drop_bit 7 number) ([nat (number AND 127)] @ encoded)
         = vb_encode_loop (drop_bit 7 number) [] @ [nat (number AND 127)] @ encoded"
      "vb_encode_loop (drop_bit 7 number) [nat (number AND 127)]
         = vb_encode_loop (drop_bit 7 number) [] @ [nat (number AND 127)]"
      by blast+
    then show ?thesis using False by (simp add: vb_encode_loop.simps[of number])
  qed
qed

lemma vb_encode_loop_unfold:
  "vb_encode_loop number [] =
     (if number < 128 then [nat (number AND 127)]
      else vb_encode_loop (drop_bit 7 number) [] @ [nat (number AND 127)])"
  by (subst vb_encode_loop.simps) (simp add: vb_encode_loop_append[of _ "[_]"])

lemma vb_encode_loop_nonempty: "vb_encode_loop number [] \<noteq> []"
  by (subst vb_encode_loop_unfold) simp

lemma int_and_127_mod: "(x::int) AND 127 = x mod 128"
proof -
  have "x AND mask 7 = take_bit 7 x" by (simp add: take_bit_eq_mask)
  then show ?thesis by (simp add: take_bit_eq_mod mask_eq_exp_minus_1)
qed

lemma vb_encode_unfold:
  "vb_encode number =
     (if number < 128 then [nat (number AND 127) + 128]
      else vb_encode_loop (drop_bit 7 number) [] @ [nat (number AND 127) + 128])"
  unfolding vb_encode_def Let_def
  by (subst (1 2 3) vb_encode_loop_unfold) (simp add: vb_encode_loop_nonempty)

lemma vb_decode_number_loop_digits:
  "0 \<le> m \<Longrightarrow>
   vb_decode_number_loop acc i (vb_encode_loop m [] @ rest)
     = vb_decode_number_loop (push_bit (7 * length (vb_encode_loop m [])) acc + nat m)
         (i + length (vb_encode_loop m [])) rest"
proof (induction "nat m" arbitrary: m acc i rest rule: less_induct)
  case less
  have d: "nat (m AND 127) = nat m mod 128" "nat (m AND 127) < 128"
    using less.prems by (simp_all add: int_and_127_mod nat_mod_distrib)
  show ?case
  proof (cases "m < 128")
    case True
    then have "vb_encode_loop m [] = [nat m]"
      using less.prems by (subst vb_encode_loop_unfold) (simp add: int_and_127_mod)
    moreover have "nat m < 128" using True less.prems by simp
    ultimately show ?thesis by (cases rest) (simp_all add: Let_def)
  next
    case False
    define q where "q = drop_bit 7 m"
    define ds where "ds = vb_encode_loop q []"
    have q: "0 \<le> q" "nat q < nat m" "nat q = nat m div 128"
      using False less.prems by (simp_all add: q_def drop_bit_eq_div nat_div_distrib)
    have e: "vb_encode_loop m [] = ds @ [nat (m AND 127)]"
      using False by (subst vb_encode_loop_unfold) (simp add: q_def ds_def)
    have "vb_decode_number_loop acc i (ds @ ([nat (m AND 127)] @ rest))
       = vb_decode_number_loop (push_bit (7 * length ds) acc + nat q) (i + length ds) ([nat (m AND 127)] @ rest)"
      unfolding ds_def using less.hyps[OF q(2) q(1)] by blast
    also have "\<dots> = vb_decode_number_loop
         (push_bit 7 (push_bit (7 * length ds) acc + nat q) + nat (m AND 127)) (i + length ds + 1) rest"
      using d(2) by (simp add: Let_def)
    also have "push_bit 7 (push_bit (7 * length ds) acc + nat q) + nat (m AND 127)
        = push_bit (7 * length (ds @ [nat (m AND 127)])) acc + nat m"
      unfolding d(1) q(3) by (simp add: push_bit_eq_mult power_add algebra_simps)
    finally show ?thesis unfolding e by simp
  qed
qed

lemma vb_decode_number_loop_encode:
  assumes "0 \<le> n"
  shows "vb_decode_number_loop acc i (vb_encode n @ rest)
     = Some (push_bit (7 * length (vb_encode n)) acc + nat n, (i + length (vb_encode n)) * 8)"
proof -
  have d: "nat (n AND 127) = nat n mod 128" "nat (n AND 127) < 128"
    using assms by (simp_all add: int_and_127_mod nat_mod_distrib)
  show ?thesis
  proof (cases "n < 128")
    case True
    then have "vb_encode n = [nat n + 128]"
      using assms by (subst vb_encode_unfold) (simp add: int_and_127_mod)
    then show ?thesis by (simp add: Let_def)
  next
    case False
    define q where "q = drop_bit 7 n"
    define ds where "ds = vb_encode_loop q []"
    have q: "0 \<le> q" "nat q = nat n div 128"
      using False assms by (simp_all add: q_def drop_bit_eq_div nat_div_distrib)
    have e: "vb_encode n = ds @ [nat (n AND 127) + 128]"
      using False by (subst vb_encode_unfold) (simp add: q_def ds_def)
    have "vb_decode_number_loop acc i (ds @ ([nat (n AND 127) + 128] @ rest))
       = vb_decode_number_loop (push_bit (7 * length ds) acc + nat q) (i + length ds)
           ([nat (n AND 127) + 128] @ rest)"
      unfolding ds_def using vb_decode_number_loop_digits[OF q(1)] by blast
    also have "\<dots> = Some (push_bit 7 (push_bit (7 * length ds) acc + nat q) + nat (n AND 127),
                          (i + length ds + 1) * 8)"
      by (simp add: Let_def)
    also have "push_bit 7 (push_bit (7 * length ds) acc + nat q) + nat (n AND 127)
        = push_bit (7 * length (ds @ [nat (n AND 127) + 128])) acc + nat n"
      unfolding d(1) q(2) by (simp add: push_bit_eq_mult power_add algebra_simps)
    finally show ?thesis unfolding e by simp
  qed
qed

lemma vb_decode_number_encode:
  assumes "0 \<le> n"
  shows "vb_decode_number (pre @ vb_encode n @ rest) (8 * length pre)
     = (nat n, 8 * (length pre + length (vb_encode n)))"
proof -
  have "drop_bit 3 (8 * length pre) = length pre" by (simp add: drop_bit_eq_div)
  then show ?thesis
    unfolding vb_decode_number_def Let_def
    using vb_decode_number_loop_encode[OF assms, of 0 "length pre" rest]
    by (simp add: mult.commute)
qed

lemma vb_encode_length: "0 < length (vb_encode n)"
  by (subst vb_encode_unfold) simp


lemma vb_decode_loop_digits:
  "0 \<le> m \<Longrightarrow>
   vb_decode_loop (vb_encode_loop m [] @ rest) acc numbers
     = vb_decode_loop rest (push_bit (7 * length (vb_encode_loop m [])) acc + nat m) numbers"
proof (induction "nat m" arbitrary: m acc rest rule: less_induct)
  case less
  have d: "nat (m AND 127) = nat m mod 128" "nat (m AND 127) < 128"
    using less.prems by (simp_all add: int_and_127_mod nat_mod_distrib)
  show ?case
  proof (cases "m < 128")
    case True
    then have "vb_encode_loop m [] = [nat m]"
      using less.prems by (subst vb_encode_loop_unfold) (simp add: int_and_127_mod)
    moreover have "nat m < 128" using True less.prems by simp
    ultimately show ?thesis by (simp add: Let_def)
  next
    case False
    define q where "q = drop_bit 7 m"
    define ds where "ds = vb_encode_loop q []"
    have q: "0 \<le> q" "nat q < nat m" "nat q = nat m div 128"
      using False less.prems by (simp_all add: q_def drop_bit_eq_div nat_div_distrib)
    have e: "vb_encode_loop m [] = ds @ [nat (m AND 127)]"
      using False by (subst vb_encode_loop_unfold) (simp add: q_def ds_def)
    have "vb_decode_loop (ds @ ([nat (m AND 127)] @ rest)) acc numbers
       = vb_decode_loop ([nat (m AND 127)] @ rest) (push_bit (7 * length ds) acc + nat q) numbers"
      unfolding ds_def using less.hyps[OF q(2) q(1)] by blast
    also have "\<dots> = vb_decode_loop rest
         (push_bit 7 (push_bit (7 * length ds) acc + nat q) + nat (m AND 127)) numbers"
      using d(2) by (simp add: Let_def)
    also have "push_bit 7 (push_bit (7 * length ds) acc + nat q) + nat (m AND 127)
        = push_bit (7 * length (ds @ [nat (m AND 127)])) acc + nat m"
      unfolding d(1) q(3) by (simp add: push_bit_eq_mult power_add algebra_simps)
    finally show ?thesis unfolding e by simp
  qed
qed

lemma vb_decode_loop_encode:
  assumes "0 \<le> n"
  shows "vb_decode_loop (vb_encode n @ rest) 0 numbers = vb_decode_loop rest 0 (numbers @ [nat n])"
proof -
  have d: "nat (n AND 127) = nat n mod 128" "nat (n AND 127) < 128"
    using assms by (simp_all add: int_and_127_mod nat_mod_distrib)
  show ?thesis
  proof (cases "n < 128")
    case True
    then have "vb_encode n = [nat n + 128]"
      using assms by (subst vb_encode_unfold) (simp add: int_and_127_mod)
    then show ?thesis by (simp add: Let_def)
  next
    case False
    define q where "q = drop_bit 7 n"
    define ds where "ds = vb_encode_loop q []"
    have q: "0 \<le> q" "nat q = nat n div 128"
      using False assms by (simp_all add: q_def drop_bit_eq_div nat_div_distrib)
    have e: "vb_encode n = ds @ [nat (n AND 127) + 128]"
      using False by (subst vb_encode_unfold) (simp add: q_def ds_def)
    have "vb_decode_loop (ds @ ([nat (n AND 127) + 128] @ rest)) 0 numbers
       = vb_decode_loop ([nat (n AND 127) + 128] @ rest) (push_bit (7 * length ds) 0 + nat q) numbers"
      unfolding ds_def using vb_decode_loop_digits[OF q(1)] by blast
    also have "\<dots> = vb_decode_loop rest 0 (numbers @ [push_bit 7 (nat q) + nat (n AND 127)])"
      by (simp add: Let_def)
    also have "push_bit 7 (nat q) + nat (n AND 127) = nat n"
      unfolding d(1) q(2) by (simp add: push_bit_eq_mult)
    finally show ?thesis unfolding e by simp
  qed
qed

lemma vb_decode_loop_concat:
  "\<forall>n \<in> set xs. 0 \<le> n \<Longrightarrow>
   vb_decode_loop (concat (map vb_encode xs)) 0 numbers = numbers @ map nat xs"
proof (induction xs arbitrary: numbers)
  case Nil
  then show ?case by simp
next
  case (Cons n xs)
  then show ?case using vb_decode_loop_encode[of n "concat (map vb_encode xs)" numbers] by simp
qed

lemma vb_roundtrip:
  "vb_decode (concat (map (\<lambda>n. vb_encode (int n)) xs)) = xs"
proof -
  have "vb_decode_loop (concat (map vb_encode (map int xs))) 0 [] = [] @ map nat (map int xs)"
    by (rule vb_decode_loop_concat) simp
  then show ?thesis by (simp add: vb_decode_def comp_def)
qed


subsection \<open>Bit-Packing round trip\<close>

lemma floor_log2_bounds:
  "0 < x \<Longrightarrow> 2 ^ floor_log2 x \<le> x \<and> x < 2 ^ (floor_log2 x + 1)"
proof (induction x rule: floor_log2.induct)
  case (1 x)
  show ?case
  proof (cases "x < 2")
    case True
    then have "x = 1" using 1 by simp
    then show ?thesis by (simp add: floor_log2.simps[of "Suc 0"])
  next
    case False
    then have "0 < x div 2" by simp
    from 1(1)[OF False this] have ih: "2 ^ floor_log2 (x div 2) \<le> x div 2"
      "x div 2 < 2 ^ (floor_log2 (x div 2) + 1)" by simp_all
    have f: "floor_log2 x = floor_log2 (x div 2) + 1"
      using False by (subst floor_log2.simps) simp
    have "2 * 2 ^ floor_log2 (x div 2) \<le> x" using ih(1) by linarith
    moreover have "x < 2 * 2 ^ (floor_log2 (x div 2) + 1)" using ih(2) by linarith
    ultimately show ?thesis unfolding f by simp
  qed
qed

lemma last_sort_max:
  fixes xs :: "'a::linorder list"
  assumes "xs \<noteq> []"
  shows "last (sort xs) \<in> set xs" and "\<forall>x \<in> set xs. x \<le> last (sort xs)"
proof -
  have ne: "sort xs \<noteq> []" using assms by (metis length_0_conv length_sort)
  then have "last (sort xs) \<in> set (sort xs)" by (rule last_in_set)
  then show "last (sort xs) \<in> set xs" by simp
  show "\<forall>x \<in> set xs. x \<le> last (sort xs)"
  proof
    fix x assume "x \<in> set xs"
    then have "x \<in> set (sort xs)" by simp
    then obtain i where i: "i < length (sort xs)" "sort xs ! i = x" by (metis in_set_conv_nth)
    have "sort xs ! i \<le> sort xs ! (length (sort xs) - 1)"
      by (rule sorted_nth_mono) (use i ne in auto)
    then show "x \<le> last (sort xs)" using i ne by (simp add: last_conv_nth)
  qed
qed

lemma array_bit_append_left: "array_bit 3 (pre @ array) (8 * length pre + p) = array_bit 3 array p"
proof -
  have "(8 * length pre + p) div 8 = length pre + p div 8" by simp
  moreover have "(8 * length pre + p) mod 8 = p mod 8" by simp
  ultimately show ?thesis by (simp add: array_bit_def nth_append)
qed

lemma array_bit_append_right: "p < 8 * length array \<Longrightarrow> array_bit 3 (array @ rest) p = array_bit 3 array p"
proof -
  assume "p < 8 * length array"
  then have "p div 8 < length array" by (simp add: less_mult_imp_div_less mult.commute)
  then show ?thesis by (simp add: array_bit_def nth_append)
qed

lemma read_binary_from_barray_value:
  assumes "offset + bits \<le> 8 * length array" and "number < 2 ^ bits"
    and "\<And>t. t < bits \<Longrightarrow> array_bit 3 array (offset + bits - 1 - t) = bit number t"
  shows "read_binary_from_barray array offset bits = Inr number"
proof -
  from read_binary_from_barray_loop_bits[OF assms(1), of 0]
  obtain v where r: "read_binary_from_barray_loop array offset bits 0 = Inr v"
    and vb: "\<And>j. bit v j = (if j < bits then array_bit 3 array (offset + bits - 1 - j) else bit (0::nat) (j - bits))"
    by blast
  have "v < 2 ^ bits" unfolding nat_less_exp_iff_bit using vb by auto
  then have "v = number"
    using vb assms(2,3) by (intro nat_eq_of_bits[of bits]) auto
  then show ?thesis using r by (simp add: read_binary_from_barray_def)
qed

lemma write_binary_in_barray_then_bits:
  assumes "\<forall>w\<in>set array. w < 2 ^ 8" "offset + bits \<le> 8 * length array"
    and "\<forall>p. offset \<le> p \<and> p < offset + bits \<longrightarrow> \<not> array_bit 3 array p"
    and "number < 2 ^ bits" "bits \<le> 32"
  obtains array' where "write_binary_in_barray array offset number bits = Inr (array', offset + bits)"
    and "length array' = length array" and "\<forall>w\<in>set array'. w < 2 ^ 8"
    and "\<And>j. j < bits \<Longrightarrow> array_bit 3 array' (offset + bits - 1 - j) = bit number j"
    and "\<And>p. \<not> (offset \<le> p \<and> p < offset + bits) \<Longrightarrow> array_bit 3 array' p = array_bit 3 array p"
proof -
  have k: "(2::nat) ^ 3 \<le> 32" by simp
  have h: "\<forall>w\<in>set array. w < 2 ^ (2 ^ 3)" "offset + bits \<le> 2 ^ 3 * length array"
    "bits \<le> 32 + (2 ^ 3 - offset mod 2 ^ 3)"
    using assms by simp_all
  from write_binary_in_array_then_bits[OF k h(1,2) assms(3,4) h(3)]
  obtain array' where "write_binary_in_array 3 array offset number bits = Inr (array', offset + bits)"
    and "length array' = length array" and "\<forall>w\<in>set array'. w < 2 ^ (2 ^ 3)"
    and "\<And>j. j < bits \<Longrightarrow> array_bit 3 array' (offset + bits - 1 - j) = bit number j"
    and "\<And>p. \<not> (offset \<le> p \<and> p < offset + bits) \<Longrightarrow> array_bit 3 array' p = array_bit 3 array p"
    by blast
  then show ?thesis using that by (simp add: write_binary_in_barray_def)
qed

lemma bp_encode_loop_bits:
  assumes b: "1 \<le> b" "b \<le> 32"
  shows "\<lbrakk>\<forall>w\<in>set encoded. w < 2 ^ 8; (i + length rest) * b \<le> 8 * length encoded;
          \<forall>p. i * b \<le> p \<and> p < 8 * length encoded \<longrightarrow> \<not> array_bit 3 encoded p;
          \<forall>x\<in>set rest. x < 2 ^ b\<rbrakk> \<Longrightarrow>
    \<exists>encoded'. bp_encode_loop rest b encoded (i * b) = Inr encoded'
      \<and> length encoded' = length encoded \<and> (\<forall>w\<in>set encoded'. w < 2 ^ 8)
      \<and> (\<forall>j<length rest. \<forall>t<b. array_bit 3 encoded' ((i + j) * b + b - 1 - t) = bit (rest ! j) t)
      \<and> (\<forall>p < i * b. array_bit 3 encoded' p = array_bit 3 encoded p)"
proof (induction rest arbitrary: i encoded)
  case Nil
  then show ?case by simp
next
  case (Cons number rest)
  have size: "i * b + b \<le> 8 * length encoded" using Cons.prems(2) by (simp add: algebra_simps)
  have zero: "\<forall>p. i * b \<le> p \<and> p < i * b + b \<longrightarrow> \<not> array_bit 3 encoded p"
    using Cons.prems(3) size by auto
  have lowlt: "number < 2 ^ b" using Cons.prems(4) by simp
  from write_binary_in_barray_then_bits[OF Cons.prems(1) size zero lowlt b(2)]
  obtain a1 where w: "write_binary_in_barray encoded (i * b) number b = Inr (a1, i * b + b)"
    and l1: "length a1 = length encoded" and w1: "\<forall>w\<in>set a1. w < 2 ^ 8"
    and in1: "\<And>t. t < b \<Longrightarrow> array_bit 3 a1 (i * b + b - 1 - t) = bit number t"
    and out1: "\<And>p. \<not> (i * b \<le> p \<and> p < i * b + b) \<Longrightarrow> array_bit 3 a1 p = array_bit 3 encoded p"
    by blast
  have size1: "(i + 1 + length rest) * b \<le> 8 * length a1" using Cons.prems(2) l1 by simp
  have zero1: "\<forall>p. (i + 1) * b \<le> p \<and> p < 8 * length a1 \<longrightarrow> \<not> array_bit 3 a1 p"
  proof (intro allI impI)
    fix p assume p: "(i + 1) * b \<le> p \<and> p < 8 * length a1"
    then have "\<not> (i * b \<le> p \<and> p < i * b + b)" by simp
    then have "array_bit 3 a1 p = array_bit 3 encoded p" by (rule out1)
    moreover have "i * b \<le> p" using p by simp
    ultimately show "\<not> array_bit 3 a1 p" using Cons.prems(3) p l1 by simp
  qed
  have rest: "\<forall>x\<in>set rest. x < 2 ^ b" using Cons.prems(4) by simp
  from Cons.IH[OF w1 size1 zero1 rest]
  obtain encoded' where
    r: "bp_encode_loop rest b a1 ((i + 1) * b) = Inr encoded'"
    and l: "length encoded' = length a1" and ws: "\<forall>w\<in>set encoded'. w < 2 ^ 8"
    and inr: "\<And>j t. j < length rest \<Longrightarrow> t < b \<Longrightarrow>
               array_bit 3 encoded' ((i + 1 + j) * b + b - 1 - t) = bit (rest ! j) t"
    and outr: "\<And>p. p < (i + 1) * b \<Longrightarrow> array_bit 3 encoded' p = array_bit 3 a1 p"
    by blast
  have res: "bp_encode_loop (number # rest) b encoded (i * b) = Inr encoded'"
    using w r by (simp add: algebra_simps)
  have bits: "array_bit 3 encoded' ((i + j) * b + b - 1 - t) = bit ((number # rest) ! j) t"
    if "j < length (number # rest)" "t < b" for j t
  proof (cases j)
    case 0
    have "i * b + b - 1 - t < (i + 1) * b" using that(2) by simp
    then have "array_bit 3 encoded' (i * b + b - 1 - t) = array_bit 3 a1 (i * b + b - 1 - t)"
      by (rule outr)
    then show ?thesis using 0 in1[OF that(2)] by simp
  next
    case (Suc j')
    then have "j' < length rest" using that(1) by simp
    from inr[OF this that(2)] show ?thesis using Suc by simp
  qed
  have frame: "array_bit 3 encoded' p = array_bit 3 encoded p" if "p < i * b" for p
  proof -
    have "array_bit 3 encoded' p = array_bit 3 a1 p" using that by (intro outr) simp
    also have "\<dots> = array_bit 3 encoded p" using that by (intro out1) simp
    finally show ?thesis .
  qed
  show ?case using res l l1 ws bits frame by auto
qed

lemma bp_decode_loop_values:
  "(\<And>j. j < nums \<Longrightarrow> read_binary_from_barray encoded (offset + (i + j) * b) b = Inr (f (i + j))) \<Longrightarrow>
   bp_decode_loop encoded offset b [i..<i + nums] = Inr (map f [i..<i + nums])"
proof (induction nums arbitrary: i)
  case 0
  then show ?case by simp
next
  case (Suc nums)
  have h: "read_binary_from_barray encoded (offset + i * b) b = Inr (f i)"
    using Suc.prems[of 0] by simp
  have ih: "bp_decode_loop encoded offset b [i + 1..<i + 1 + nums] = Inr (map f [i + 1..<i + 1 + nums])"
    by (rule Suc.IH) (use Suc.prems[of "Suc j" for j] in simp)
  have u: "[i..<i + Suc nums] = i # [i + 1..<i + 1 + nums]"
    by (simp add: upt_conv_Cons del: upt_Suc)
  show ?case unfolding u bp_decode_loop.simps h ih by simp
qed

lemma vb_encode_bytes: "\<forall>byte \<in> set (vb_encode n). byte < 256"
proof -
  have d: "nat (m AND 127) < 128" for m :: int
    by (simp add: int_and_127_mod nat_less_iff)
  have l: "\<forall>byte \<in> set (vb_encode_loop m []). byte < 128" for m
  proof (induction "nat m" arbitrary: m rule: less_induct)
    case less
    show ?case
    proof (cases "m < 128")
      case True
      then show ?thesis using d[of m] by (subst vb_encode_loop_unfold) simp
    next
      case False
      then have "nat (drop_bit 7 m) < nat m" by (simp add: drop_bit_eq_div)
      from less[OF this] show ?thesis using d[of m] False
        by (subst vb_encode_loop_unfold) auto
    qed
  qed
  show ?thesis using d[of n] l[of "drop_bit 7 n"]
    by (subst vb_encode_unfold) (auto simp: less_imp_le)
qed

lemma bp_roundtrip:
  assumes ne: "numbers \<noteq> []" and nz: "\<exists>x\<in>set numbers. x \<noteq> 0" and lt: "\<forall>x\<in>set numbers. x < 2 ^ 32"
  shows "\<exists>encoded padding. bp_encode numbers = Inr (encoded, padding)
           \<and> bp_decode encoded (length numbers) = Inr numbers"
proof -
  define mx where "mx = last (sort numbers)"
  define b where "b = floor_log2 mx + 1"
  define n where "n = length numbers"
  have mxin: "mx \<in> set numbers" and mxmax: "\<forall>x\<in>set numbers. x \<le> mx"
    unfolding mx_def using last_sort_max[OF ne] by simp_all
  have mxpos: "0 < mx" using nz mxmax by force
  have mxb: "mx < 2 ^ b" "2 ^ (b - 1) \<le> mx" using floor_log2_bounds[OF mxpos] by (simp_all add: b_def)
  have b1: "1 \<le> b" by (simp add: b_def)
  have "(2::nat) ^ (b - 1) < 2 ^ 32" using mxb(2) lt mxin by (meson le_less_trans)
  then have "b - 1 < 32" by (rule power_less_imp_less_exp[rotated]) simp
  then have b32: "b \<le> 32" by simp
  have xs: "\<forall>x\<in>set numbers. x < 2 ^ b" using mxmax mxb(1) by (meson le_less_trans)
  define enc0 where "enc0 = replicate (ceil_div (b * n) 8) (0::nat)"
  have e1: "\<forall>w\<in>set enc0. w < 2 ^ 8" by (simp add: enc0_def)
  have e2: "(0 + length numbers) * b \<le> 8 * length enc0"
    using ceil_div_ge[of 8 "b * n"] by (simp add: enc0_def n_def mult.commute)
  have e3: "\<forall>p. 0 * b \<le> p \<and> p < 8 * length enc0 \<longrightarrow> \<not> array_bit 3 enc0 p"
    by (auto simp: enc0_def array_bit_def less_mult_imp_div_less mult.commute)
  from bp_encode_loop_bits[OF b1 b32 e1 e2 e3 xs]
  obtain enc where r: "bp_encode_loop numbers b enc0 0 = Inr enc"
    and l: "length enc = length enc0" and ws: "\<forall>w\<in>set enc. w < 2 ^ 8"
    and bits: "\<And>j t. j < length numbers \<Longrightarrow> t < b \<Longrightarrow> array_bit 3 enc (j * b + b - 1 - t) = bit (numbers ! j) t"
    by auto
  define header where "header = vb_encode (int b - 1)"
  define padding where "padding = (if 8 - (b * n) mod 8 = 8 then 0 else 8 - (b * n) mod 8)"
  have bytes: "\<not> (\<exists>byte \<in> set (header @ enc). byte > 255)"
    using ws vb_encode_bytes[of "int b - 1"] by (auto simp: header_def)
  have enc_eq: "bp_encode numbers = Inr (header @ enc, padding)"
    unfolding bp_encode_def Let_def
    unfolding mx_def[symmetric]
    unfolding b_def[symmetric]
    unfolding n_def[symmetric]
    unfolding enc0_def[symmetric] header_def[symmetric]
    using ne mxpos bytes by (simp add: r padding_def)
  have b0: "0 \<le> int b - 1" using b1 by simp
  have hd: "vb_decode_number (header @ enc) 0 = (b - 1, 8 * length header)"
    using vb_decode_number_encode[OF b0, of "[]" enc] b1 by (simp add: header_def nat_diff_distrib)
  have rd: "read_binary_from_barray (header @ enc) (8 * length header + (0 + j) * b) b = Inr (numbers ! (0 + j))"
    if j: "j < n" for j
  proof (rule read_binary_from_barray_value)
    have "j * b + b \<le> n * b" using j by (metis Suc_leI mult_Suc mult_le_mono1 add.commute)
    then have le: "j * b + b \<le> 8 * length enc" using e2 l by (simp add: n_def)
    then show "8 * length header + (0 + j) * b + b \<le> 8 * length (header @ enc)" by simp
    show "numbers ! (0 + j) < 2 ^ b" using xs j by (simp add: n_def)
    fix t assume t: "t < b"
    have "8 * length header + (0 + j) * b + b - 1 - t = 8 * length header + (j * b + b - 1 - t)"
      using t by simp
    then have "array_bit 3 (header @ enc) (8 * length header + (0 + j) * b + b - 1 - t)
        = array_bit 3 enc (j * b + b - 1 - t)"
      by (simp only: array_bit_append_left)
    then show "array_bit 3 (header @ enc) (8 * length header + (0 + j) * b + b - 1 - t) = bit (numbers ! (0 + j)) t"
      using bits[of j t] j t by (simp add: n_def)
  qed
  have "bp_decode_loop (header @ enc) (8 * length header) b [0..<0 + n] = Inr (map (\<lambda>j. numbers ! j) [0..<0 + n])"
    by (rule bp_decode_loop_values) (use rd in simp)
  moreover have "map (\<lambda>j. numbers ! j) [0..<n] = numbers" unfolding n_def by (rule map_nth)
  ultimately have "bp_decode (header @ enc) (length numbers) = Inr numbers"
    using hd b1 by (simp add: bp_decode_def n_def)
  then show ?thesis using enc_eq by blast
qed

lemma bp_encode_zeros:
  assumes "numbers \<noteq> []" and "\<forall>x\<in>set numbers. x = 0"
  shows "bp_encode numbers = Inl ValueError"
proof -
  have "last (sort numbers) \<in> set numbers" using last_sort_max(1)[OF assms(1)] .
  then have "last (sort numbers) = 0" using assms(2) by simp
  then show ?thesis using assms(1) by (simp add: bp_encode_def)
qed


subsection \<open>Unary decoding\<close>

lemma READ_MSB_MASKS_nth: "s < 8 \<Longrightarrow> READ_MSB_MASKS ! s = 2 ^ (7 - s)"
proof -
  assume "s < 8"
  then consider "s = 0" | "s = 1" | "s = 2" | "s = 3" | "s = 4" | "s = 5" | "s = 6" | "s = 7"
    by linarith
  then show ?thesis by cases (simp_all add: READ_MSB_MASKS_def)
qed

lemma READ_MSB_MASKS_8: "READ_MSB_MASKS ! 8 = 0"
  by (simp add: READ_MSB_MASKS_def)

lemma READ_SINCE_MASKS_nth: "s \<le> 8 \<Longrightarrow> READ_SINCE_MASKS ! s = 2 ^ (8 - s) - 1"
proof -
  assume "s \<le> 8"
  then consider "s = 0" | "s = 1" | "s = 2" | "s = 3" | "s = 4" | "s = 5" | "s = 6" | "s = 7" | "s = 8"
    by linarith
  then show ?thesis by cases (simp_all add: READ_SINCE_MASKS_def)
qed

lemma unary_decode_leading_ones_run:
  "\<lbrakk>s + c \<le> 8; \<And>i. s \<le> i \<Longrightarrow> i < s + c \<Longrightarrow> bit readed (7 - i);
    s + c < 8 \<Longrightarrow> \<not> bit readed (7 - (s + c))\<rbrakk> \<Longrightarrow>
   unary_decode_leading_ones readed number s = Inr (number + c, s + c)"
proof (induction c arbitrary: s number)
  case 0
  show ?case
  proof (cases "s = 8")
    case True
    then show ?thesis
      by (subst unary_decode_leading_ones.simps) (simp add: READ_MSB_MASKS_8)
  next
    case False
    then have s: "s < 8" using 0(1) by simp
    then have "\<not> bit readed (7 - s)" using 0(3) by simp
    then have "readed AND 2 ^ (7 - s) = 0" by (simp add: and_exp_eq_0_iff_not_bit)
    then show ?thesis using s
      by (subst unary_decode_leading_ones.simps) (simp add: READ_MSB_MASKS_nth)
  qed
next
  case (Suc c)
  have s: "s < 8" using Suc.prems(1) by simp
  have "bit readed (7 - s)" using Suc.prems(2)[of s] by simp
  then have nz: "readed AND 2 ^ (7 - s) \<noteq> 0" by (simp add: and_exp_eq_0_iff_not_bit)
  have "unary_decode_leading_ones readed (number + 1) (s + 1) = Inr (number + 1 + c, s + 1 + c)"
  proof (rule Suc.IH)
    show "s + 1 + c \<le> 8" using Suc.prems(1) by simp
    show "bit readed (7 - i)" if "s + 1 \<le> i" "i < s + 1 + c" for i
      using Suc.prems(2)[of i] that by simp
    show "\<not> bit readed (7 - (s + 1 + c))" if "s + 1 + c < 8"
      using Suc.prems(3) that by simp
  qed
  then show ?case using s nz
    by (subst unary_decode_leading_ones.simps) (simp add: READ_MSB_MASKS_nth)
qed

lemma unary_decode_full_bytes_run:
  "\<lbrakk>\<And>j. j < k \<Longrightarrow> encoded ! (i + j) = 255; i + k < length encoded; encoded ! (i + k) \<noteq> 255\<rbrakk> \<Longrightarrow>
   unary_decode_full_bytes encoded number i = Inr (number + 8 * k, i + k)"
proof (induction k arbitrary: i number)
  case 0
  then show ?case by (subst unary_decode_full_bytes.simps) simp
next
  case (Suc k)
  have "unary_decode_full_bytes encoded (number + 8) (i + 1) = Inr (number + 8 + 8 * k, i + 1 + k)"
  proof (rule Suc.IH)
    show "encoded ! (i + 1 + j) = 255" if "j < k" for j using Suc.prems(1)[of "Suc j"] that by simp
    show "i + 1 + k < length encoded" using Suc.prems(2) by simp
    show "encoded ! (i + 1 + k) \<noteq> 255" using Suc.prems(3) by simp
  qed
  moreover have "encoded ! i = 255" using Suc.prems(1)[of 0] by simp
  moreover have "i < length encoded" using Suc.prems(2) by simp
  ultimately show ?case by (subst unary_decode_full_bytes.simps) simp
qed

lemma byte_255_iff:
  fixes byte :: nat
  assumes "byte < 256"
  shows "byte = 255 \<longleftrightarrow> (\<forall>i<8. bit byte i)"
proof
  assume "byte = 255"
  then have "byte = mask 8" by (simp add: mask_eq_exp_minus_1)
  then show "\<forall>i<8. bit byte i" by (simp add: bit_mask_iff)
next
  assume h: "\<forall>i<8. bit byte i"
  have "byte < 2 ^ 8" using assms by simp
  then have z: "\<forall>j\<ge>8. \<not> bit byte j" unfolding nat_less_exp_iff_bit .
  have "byte = mask 8"
    by (rule bit_eqI) (use h z in \<open>auto simp: bit_mask_iff not_le[symmetric]\<close>)
  then show "byte = 255" by (simp add: mask_eq_exp_minus_1)
qed

lemma and_mask_eq_mask_iff:
  fixes byte :: nat
  shows "byte AND (2 ^ m - 1) = 2 ^ m - 1 \<longleftrightarrow> (\<forall>i<m. bit byte i)"
proof -
  have e: "(2::nat) ^ m - 1 = mask m" by (simp add: mask_eq_exp_minus_1)
  show ?thesis unfolding e
  proof
    assume a: "byte AND mask m = mask m"
    show "\<forall>i<m. bit byte i"
    proof (intro allI impI)
      fix i assume "i < m"
      then have "bit (mask m :: nat) i" by (simp add: bit_mask_iff)
      then have "bit (byte AND mask m) i" using a by simp
      then show "bit byte i" by (simp add: bit_and_iff)
    qed
  next
    assume h: "\<forall>i<m. bit byte i"
    show "byte AND mask m = mask m"
      by (rule bit_eqI) (use h in \<open>auto simp: bit_and_iff bit_mask_iff\<close>)
  qed
qed


lemma array_bit_pos: "r < 8 \<Longrightarrow> array_bit 3 encoded (8 * q + r) = bit (encoded ! q) (7 - r)"
  by (simp add: array_bit_def)

lemma bit_mask_minus_1: "bit ((2::nat) ^ m - 1) j \<longleftrightarrow> j < m"
proof -
  have "(2::nat) ^ m - 1 = mask m" by (simp add: mask_eq_exp_minus_1)
  then show ?thesis by (simp add: bit_mask_iff)
qed

lemma unary_decode_loop_once:
  assumes "bit_index \<le> 8" "byte_index < length encoded"
    and "readed = encoded ! byte_index AND READ_SINCE_MASKS ! bit_index"
    and "n0 = (if is_opt then 1 else 0)"
    and "(if readed = READ_SINCE_MASKS ! bit_index
          then (case unary_decode_full_bytes encoded (n0 + (8 - bit_index)) (byte_index + 1) of
                  Inl e \<Rightarrow> Inl e
                | Inr (number, byte_index) \<Rightarrow> Inr (number, byte_index, encoded ! byte_index, 0))
          else Inr (n0, byte_index, readed, bit_index)) = Inr (number1, byte_index1, readed1, bit_index1)"
    and "unary_decode_leading_ones readed1 number1 bit_index1 = Inr (number2, bit_index2)"
  shows "unary_decode_loop encoded (Suc 0) is_opt byte_index bit_index decoded = Inr (decoded @ [number2])"
proof -
  have a: "\<not> bit_index > 8" "\<not> byte_index \<ge> length encoded" using assms(1,2) by simp_all
  show ?thesis
    unfolding unary_decode_loop.simps Let_def
    unfolding assms(3)[symmetric] assms(4)[symmetric]
    by (simp only: a if_False assms(5) assms(6) sum.case prod.case)
qed

lemma unary_decode_run:
  assumes bytes: "\<forall>w\<in>set encoded. w < 256"
    and ones: "\<And>p. offset \<le> p \<Longrightarrow> p < offset + u \<Longrightarrow> array_bit 3 encoded p"
    and zero: "\<not> array_bit 3 encoded (offset + u)"
    and len: "offset + u < 8 * length encoded"
  shows "unary_decode encoded 1 is_opt offset = Inr [u + (if is_opt then 1 else 0)]"
proof -
  define idx where "idx = offset div 8"
  define bi where "bi = offset mod 8"
  define n0 where "n0 = (if is_opt then 1 else 0::nat)"
  have off: "offset = 8 * idx + bi" and bi8: "bi < 8" by (simp_all add: idx_def bi_def)
  have idxlt: "idx < length encoded" using len off by linarith
  define byte0 where "byte0 = encoded ! idx"
  define readed where "readed = byte0 AND READ_SINCE_MASKS ! bi"
  have msk: "READ_SINCE_MASKS ! bi = 2 ^ (8 - bi) - 1" using bi8 by (simp add: READ_SINCE_MASKS_nth)
  have rbit: "bit readed j \<longleftrightarrow> bit byte0 j \<and> j < 8 - bi" for j
    unfolding readed_def msk by (simp only: bit_and_iff bit_mask_minus_1)
  have start: "unary_decode encoded 1 is_opt offset = unary_decode_loop encoded (Suc 0) is_opt idx bi []"
    by (simp add: unary_decode_def idx_def bi_def drop_bit_eq_div and_7_mod)
  have rd: "readed = encoded ! idx AND READ_SINCE_MASKS ! bi" by (simp add: readed_def byte0_def)
  show ?thesis
  proof (cases "u < 8 - bi")
    case True
    have b0: "bit byte0 (7 - (bi + j))" if "j < u" for j
    proof -
      have "array_bit 3 encoded (8 * idx + (bi + j))"
        using ones[of "offset + j"] that off by (simp add: add.assoc)
      moreover have "bi + j < 8" using that True by simp
      ultimately show ?thesis by (simp add: array_bit_pos byte0_def)
    qed
    have z0: "\<not> bit byte0 (7 - (bi + u))"
    proof -
      have "\<not> array_bit 3 encoded (8 * idx + (bi + u))" using zero off by (simp add: add.assoc)
      moreover have "bi + u < 8" using True by simp
      ultimately show ?thesis by (simp add: array_bit_pos byte0_def)
    qed
    have ne: "readed \<noteq> READ_SINCE_MASKS ! bi"
    proof
      assume "readed = READ_SINCE_MASKS ! bi"
      then have "byte0 AND (2 ^ (8 - bi) - 1) = 2 ^ (8 - bi) - 1" by (simp add: readed_def msk)
      then have "\<forall>i<8 - bi. bit byte0 i" by (simp only: and_mask_eq_mask_iff)
      moreover have "7 - (bi + u) < 8 - bi" using True by simp
      ultimately show False using z0 by blast
    qed
    have lo: "unary_decode_leading_ones readed n0 bi = Inr (n0 + u, bi + u)"
    proof (rule unary_decode_leading_ones_run)
      show "bi + u \<le> 8" using True by simp
      show "bit readed (7 - i)" if "bi \<le> i" "i < bi + u" for i
      proof -
        have "bit byte0 (7 - (bi + (i - bi)))" by (rule b0) (use that in simp)
        then show ?thesis unfolding rbit using that True by simp
      qed
      show "\<not> bit readed (7 - (bi + u))" using z0 by (simp add: rbit)
    qed
    have st: "(if readed = READ_SINCE_MASKS ! bi
          then (case unary_decode_full_bytes encoded (n0 + (8 - bi)) (idx + 1) of
                  Inl e \<Rightarrow> Inl e
                | Inr (number, byte_index) \<Rightarrow> Inr (number, byte_index, encoded ! byte_index, 0))
          else Inr (n0, idx, readed, bi)) = Inr (n0, idx, readed, bi)"
      using ne by simp
    have "unary_decode_loop encoded (Suc 0) is_opt idx bi [] = Inr ([] @ [n0 + u])"
      by (rule unary_decode_loop_once[OF _ idxlt rd n0_def st lo]) (use bi8 in simp)
    then show ?thesis unfolding start by (simp add: n0_def)
  next
    case False
    define u' where "u' = u - (8 - bi)"
    define k where "k = u' div 8"
    define c where "c = u' mod 8"
    have u: "u = (8 - bi) + 8 * k + c" and c8: "c < 8"
      using False by (simp_all add: u'_def k_def c_def)
    have endpos: "offset + u = 8 * (idx + 1 + k) + c" using u off bi8 by simp
    have "8 * (idx + 1 + k) < 8 * length encoded" using len unfolding endpos by simp
    then have lastlt: "idx + 1 + k < length encoded" by simp
    have all0: "\<forall>i<8 - bi. bit byte0 i"
    proof (intro allI impI)
      fix i assume i: "i < 8 - bi"
      define r where "r = 7 - i"
      have r: "bi \<le> r" "r < 8" "7 - r = i" using i by (simp_all add: r_def)
      have "array_bit 3 encoded (8 * idx + r)"
        by (rule ones) (use r off u bi8 in simp_all)
      then show "bit byte0 i" using r by (simp add: array_bit_pos byte0_def)
    qed
    then have req: "readed = READ_SINCE_MASKS ! bi"
      unfolding readed_def msk by (simp only: and_mask_eq_mask_iff)
    have full: "encoded ! (idx + 1 + j) = 255" if "j < k" for j
    proof -
      have lt: "idx + 1 + j < length encoded" using that lastlt by simp
      then have b: "encoded ! (idx + 1 + j) < 256" using bytes by simp
      have "bit (encoded ! (idx + 1 + j)) i" if "i < 8" for i
      proof -
        define r where "r = 7 - i"
        have r: "r < 8" "7 - r = i" using that by (simp_all add: r_def)
        have "array_bit 3 encoded (8 * (idx + 1 + j) + r)"
          by (rule ones) (use r off u bi8 \<open>j < k\<close> in simp_all)
        then show ?thesis unfolding array_bit_pos[OF r(1)] r(2) .
      qed
      then show ?thesis using byte_255_iff[OF b] by blast
    qed
    define bl where "bl = encoded ! (idx + 1 + k)"
    have bl1: "bit bl (7 - i)" if "i < c" for i
    proof -
      have i8: "i < 8" using that c8 by simp
      have "array_bit 3 encoded (8 * (idx + 1 + k) + i)"
        by (rule ones) (use that off u bi8 c8 in simp_all)
      then show ?thesis unfolding array_bit_pos[OF i8] bl_def .
    qed
    have blz: "\<not> bit bl (7 - c)"
      using zero unfolding endpos array_bit_pos[OF c8] bl_def .
    have blne: "encoded ! (idx + 1 + k) \<noteq> 255"
    proof
      assume "encoded ! (idx + 1 + k) = 255"
      then have "bl = mask 8" by (simp add: bl_def mask_eq_exp_minus_1)
      then have "bit bl (7 - c)" by (simp add: bit_mask_iff)
      then show False using blz by simp
    qed
    have fb: "unary_decode_full_bytes encoded (n0 + (8 - bi)) (idx + 1)
        = Inr (n0 + (8 - bi) + 8 * k, idx + 1 + k)"
      by (rule unary_decode_full_bytes_run) (use full lastlt blne in simp_all)
    have lo: "unary_decode_leading_ones bl (n0 + (8 - bi) + 8 * k) 0 = Inr (n0 + (8 - bi) + 8 * k + c, 0 + c)"
    proof (rule unary_decode_leading_ones_run)
      show "0 + c \<le> 8" using c8 by simp
      show "bit bl (7 - i)" if "0 \<le> i" "i < 0 + c" for i using bl1[of i] that by simp
      show "\<not> bit bl (7 - (0 + c))" using blz by simp
    qed
    have st: "(if readed = READ_SINCE_MASKS ! bi
          then (case unary_decode_full_bytes encoded (n0 + (8 - bi)) (idx + 1) of
                  Inl e \<Rightarrow> Inl e
                | Inr (number, byte_index) \<Rightarrow> Inr (number, byte_index, encoded ! byte_index, 0))
          else Inr (n0, idx, readed, bi)) = Inr (n0 + (8 - bi) + 8 * k, idx + 1 + k, bl, 0)"
      using req fb by (simp add: bl_def)
    have "unary_decode_loop encoded (Suc 0) is_opt idx bi [] = Inr ([] @ [n0 + (8 - bi) + 8 * k + c])"
      by (rule unary_decode_loop_once[OF _ idxlt rd n0_def st lo]) (use bi8 in simp)
    then show ?thesis unfolding start using u by (simp add: n0_def)
  qed
qed


subsection \<open>Unary round trip\<close>

lemma replicate_Suc_update_last: "(replicate (Suc k) a)[k := v] = replicate k a @ [v]"
  by (induction k) simp_all

lemma update_last_replicate: "update_last f (replicate (Suc k) a) = Inr (replicate k a @ [f a])"
proof -
  have a: "replicate (Suc k) a \<noteq> []" "length (replicate (Suc k) a) - 1 = k"
    "last (replicate (Suc k) a) = a" by simp_all
  show ?thesis
    unfolding update_last_def by (simp only: a if_False replicate_Suc_update_last)
qed

lemma update_last_snoc: "update_last f (xs @ [a]) = Inr (xs @ [f a])"
  by (simp add: update_last_def)

lemma unary_encode_plain:
  "unary_encode n False = Inr (unary_bytes n, 7 - n mod 8)"
proof -
  have c: "ceil_div (n + 1) 8 = Suc (n div 8)" by (simp add: ceil_div_def)
  have p: "8 - n mod 8 - 1 = 7 - n mod 8" by simp
  have q: "(7 - n mod 8 = 8) = False" "7 - n mod 8 + 1 = 8 - n mod 8" by simp_all
  show ?thesis
    unfolding unary_encode_def Let_def c p
    by (simp only: q if_False update_last_replicate sum.case unary_bytes_def)
qed

lemma and_255_twice: "push_bit 1 (push_bit s (255::nat) AND 255) AND 255 = push_bit (Suc s) 255 AND 255"
proof -
  have "push_bit 1 (push_bit s (255::nat) AND 255) AND 255 = (2 * (push_bit s 255 mod 256)) mod 256"
    by (simp add: nat_and_255_mod push_bit_eq_mult mult.commute)
  also have "\<dots> = (2 * push_bit s 255) mod 256" by (simp add: mod_mult_right_eq)
  also have "\<dots> = push_bit (Suc s) 255 AND 255"
    by (simp add: nat_and_255_mod push_bit_eq_mult mult.commute)
  finally show ?thesis .
qed

lemma unary_encode_optimized:
  assumes "0 < n"
  shows "unary_encode n True = Inr (unary_bytes (n - 1), 7 - (n - 1) mod 8)"
proof -
  have c: "ceil_div (n + 1) 8 = Suc (n div 8)" by (simp add: ceil_div_def)
  have p: "8 - n mod 8 - 1 = 7 - n mod 8" by simp
  have q: "(7 - n mod 8 = 8) = False" "7 - n mod 8 + 1 = 8 - n mod 8" "(n = 0) = False"
    using assms by simp_all
  have e: "unary_encode n True =
     (case update_last (\<lambda>byte. push_bit 1 byte AND 255)
             (if 7 - n mod 8 = 7 then butlast (replicate (n div 8) 255 @ [push_bit (8 - n mod 8) 255 AND 255])
              else replicate (n div 8) 255 @ [push_bit (8 - n mod 8) 255 AND 255]) of
        Inl e \<Rightarrow> Inl e
      | Inr encoded \<Rightarrow> Inr (encoded, if 7 - n mod 8 < 7 then 7 - n mod 8 + 1 else 0))"
    unfolding unary_encode_def Let_def c p
    by (simp only: q if_False if_True update_last_replicate sum.case)
  show ?thesis
  proof (cases "n mod 8 = 0")
    case True
    define k where "k = n div 8 - 1"
    have "0 < n div 8" using assms True by (metis div_greater_zero_iff mod_less neq0_conv not_less zero_less_numeral)
    then have k: "n div 8 = Suc k" by (simp add: k_def)
    have "n = 8 * (n div 8) + n mod 8" by simp
    then have n: "n = 8 * Suc k" using True k by simp
    have "n - 1 = 8 * k + 7" unfolding n by simp
    then have m: "(n - 1) div 8 = k" "(n - 1) mod 8 = 7" by simp_all
    have a: "((7::nat) - 0 = 7) = True" "((7::nat) - 0 < 7) = False" "(8::nat) - 7 = 1" "(7::nat) - 7 = 0"
      by simp_all
    show ?thesis
      unfolding e unary_bytes_def m True k
      by (simp only: a if_True if_False butlast_snoc update_last_replicate sum.case)
  next
    case False
    define r where "r = n mod 8"
    define q where "q = n div 8"
    have r: "0 < r" "r < 8" using False by (simp_all add: r_def)
    have "n = 8 * q + r" by (simp add: q_def r_def)
    then have n1: "n - 1 = 8 * q + (r - 1)" using r by linarith
    have "r - 1 < 8" using r by simp
    then have m: "(n - 1) div 8 = q" "(n - 1) mod 8 = r - 1" unfolding n1 by simp_all
    have a: "(7 - r = 7) = False" "7 - r < 7" "7 - r + 1 = 7 - (r - 1)" "8 - (r - 1) = Suc (8 - r)"
      using r by simp_all
    show ?thesis
      unfolding e unary_bytes_def m r_def[symmetric] q_def[symmetric]
      by (simp only: a if_False if_True update_last_snoc sum.case and_255_twice)
  qed
qed

lemma unary_bytes_length: "length (unary_bytes m) = m div 8 + 1"
  by (simp add: unary_bytes_def)

lemma unary_bytes_bytes: "\<forall>w \<in> set (unary_bytes m). w < 256"
  using and_255_less[of "push_bit (8 - m mod 8) 255"] by (auto simp: unary_bytes_def)

lemma unary_bytes_last: "last (unary_bytes m) = push_bit (8 - m mod 8) 255 AND 255"
  by (simp add: unary_bytes_def)

lemma less_times_div_Suc: "(m::nat) < 8 * (m div 8 + 1)"
proof -
  have "m < 8 + 8 * (m div 8)" by (rule dividend_less_times_div) simp
  then show ?thesis by simp
qed

lemma unary_bytes_bit:
  assumes "p < 8 * (m div 8 + 1)"
  shows "array_bit 3 (unary_bytes m) p \<longleftrightarrow> p < m"
proof -
  define q where "q = p div 8"
  define r where "r = p mod 8"
  define D where "D = m div 8"
  define R where "R = m mod 8"
  have p: "p = 8 * q + r" and r8: "r < 8" by (simp_all add: q_def r_def)
  have mm: "m = 8 * D + R" and R8: "R < 8" by (simp_all add: D_def R_def)
  have ab: "array_bit 3 (unary_bytes m) p = bit (unary_bytes m ! q) (7 - r)"
    by (simp add: array_bit_def q_def r_def)
  have "p < 8 * (D + 1)" using assms by (simp add: D_def)
  then have qle: "q \<le> D" using p by simp
  have ub: "unary_bytes m = replicate D 255 @ [push_bit (8 - R) 255 AND 255]"
    by (simp add: unary_bytes_def D_def R_def)
  show ?thesis
  proof (cases "q < D")
    case True
    then have "unary_bytes m ! q = 255" by (simp add: ub nth_append)
    then have "unary_bytes m ! q = mask 8" by (simp add: mask_eq_exp_minus_1)
    then have "bit (unary_bytes m ! q) (7 - r)" by (simp add: bit_mask_iff)
    moreover have "8 * (q + 1) \<le> 8 * D" using True by simp
    then have "p < m" using p r8 mm by simp
    ultimately show ?thesis using ab by simp
  next
    case False
    then have q: "q = D" using qle by simp
    define s where "s = 8 - R"
    have e: "unary_bytes m ! q = push_bit s 255 AND 255"
      by (simp add: ub nth_append q s_def)
    have m8: "(255::nat) = mask 8" by (simp add: mask_eq_exp_minus_1)
    have "bit (push_bit s (255::nat) AND 255) (7 - r) \<longleftrightarrow> s \<le> 7 - r"
      unfolding m8 by (auto simp: bit_and_iff bit_push_bit_iff bit_mask_iff)
    also have "\<dots> \<longleftrightarrow> r < R" using r8 R8 by (auto simp: s_def)
    also have "\<dots> \<longleftrightarrow> p < m" unfolding p q mm by simp
    finally show ?thesis using ab e by simp
  qed
qed

lemma unary_bytes_decode:
  "unary_decode (unary_bytes m) 1 is_opt 0 = Inr [m + (if is_opt then 1 else 0)]"
proof (rule unary_decode_run)
  show "\<forall>w\<in>set (unary_bytes m). w < 256" by (rule unary_bytes_bytes)
  have lt: "m < 8 * (m div 8 + 1)" by (rule less_times_div_Suc)
  show "array_bit 3 (unary_bytes m) p" if "0 \<le> p" "p < 0 + m" for p
    using unary_bytes_bit[of p m] that lt by simp
  show "\<not> array_bit 3 (unary_bytes m) (0 + m)" using unary_bytes_bit[of m m] lt by simp
  show "0 + m < 8 * length (unary_bytes m)" using lt by (simp add: unary_bytes_length)
qed

lemma unary_roundtrip:
  assumes "optimize \<longrightarrow> 0 < n"
  shows "\<exists>encoded padding. unary_encode n optimize = Inr (encoded, padding)
           \<and> unary_decode encoded 1 optimize 0 = Inr [n]"
proof (cases optimize)
  case True
  then have "0 < n" using assms by simp
  then show ?thesis using True unary_encode_optimized[of n] unary_bytes_decode[of "n - 1" True]
    by simp
next
  case False
  then show ?thesis using unary_encode_plain[of n] unary_bytes_decode[of n False] by simp
qed


subsection \<open>BitByteArray: the bits after an append\<close>

lemma list_update_last_butlast: "xs \<noteq> [] \<Longrightarrow> xs[length xs - Suc 0 := v] = butlast xs @ [v]"
  by (induction xs rule: rev_induct) simp_all

lemma bba_padding_eq:
  "bit_pointer self < 8 \<Longrightarrow> bba_padding self = (if bit_pointer self = 0 then 0 else 8 - bit_pointer self)"
  by (simp add: bba_padding_def Let_def nat_diff_distrib')

lemma bba_size_eq:
  assumes "bba_wf self"
  shows "bba_size self = (if bit_pointer self = 0 then 8 * length (stream self)
                          else 8 * (length (stream self) - 1) + bit_pointer self)"
proof -
  have bp: "bit_pointer self < 8" using assms by (simp add: bba_wf_def)
  show ?thesis
  proof (cases "bit_pointer self = 0")
    case True
    then show ?thesis by (simp add: bba_size_def bba_padding_eq[OF bp])
  next
    case False
    then have "stream self \<noteq> []" using assms by (simp add: bba_wf_def)
    then obtain L where L: "length (stream self) = Suc L" by (cases "stream self") auto
    show ?thesis using False bp by (simp add: bba_size_def bba_padding_eq[OF bp] L)
  qed
qed

lemma bba_append_shape:
  assumes wf: "bba_wf self" and el: "element < 256" and p: "padding < 8"
  shows "bba_append element padding self =
     Inr \<lparr>stream = (if bit_pointer self = 0 then stream self @ [element]
                    else if padding < bit_pointer self
                    then butlast (stream self)
                         @ [last (stream self) + drop_bit (bit_pointer self) element,
                            push_bit (8 - bit_pointer self) element AND 255]
                    else butlast (stream self) @ [last (stream self) + drop_bit (bit_pointer self) element]),
          bit_pointer = (bit_pointer self + 8 - padding) mod 8\<rparr>"
proof (cases "bit_pointer self = 0")
  case True
  have e: "element AND 255 = element" using el by (simp add: nat_and_255_mod)
  define s1 where "s1 = self\<lparr>stream := stream self @ to_byte element\<rparr>"
  have bp1: "bit_pointer s1 = 0" using True by (simp add: s1_def)
  have a: "bba_append element padding self = recompute_bit_pointer padding s1"
    using True by (simp add: bba_append_def validate_padding_def s1_def)
  show ?thesis
    unfolding a recompute_bit_pointer_eq[OF p, of s1, unfolded bp1, simplified]
    using True p by (simp add: s1_def to_byte_eq e)
next
  case False
  define ofs where "ofs = bit_pointer self"
  have o: "0 < ofs" "ofs < 8" using False wf by (auto simp: ofs_def bba_wf_def)
  have ne: "stream self \<noteq> []" and dl: "2 ^ (8 - ofs) dvd last (stream self)"
    using False wf by (auto simp: ofs_def bba_wf_def)
  have lt: "last (stream self) < 256" using wf ne by (simp add: bba_wf_def)
  define t where "t = drop_bit ofs element"
  have "element < 2 ^ ((8 - ofs) + ofs)" using el o by simp
  then have t: "t < 2 ^ (8 - ofs)" unfolding t_def drop_bit_eq_div by (rule div_power_less)
  have "last (stream self) < 2 ^ ((8 - ofs) + ofs)" using lt o by simp
  from dvd_add_less_power[OF dl this t] have sum: "last (stream self) + t < 256"
    using o by simp
  define s1 where "s1 = self\<lparr>stream := (stream self)[length (stream self) - 1 := last (stream self) + t]\<rparr>"
  define s2 where "s2 = (if has_to_write_carried padding ofs
                          then s1\<lparr>stream := stream s1 @ to_byte (to_left element (8 - ofs))\<rparr> else s1)"
  have a: "bba_append element padding self = recompute_bit_pointer padding s2"
    using False ne sum o
    by (simp add: bba_append_def validate_padding_def Let_def s1_def s2_def ofs_def[symmetric] t_def[symmetric])
  have bp2: "bit_pointer s2 = ofs" by (simp add: s2_def s1_def ofs_def)
  have ca: "to_left element (8 - ofs) AND 255 = push_bit (8 - ofs) element AND 255"
    by (simp add: to_left_def and.assoc)
  have st2: "stream s2 = (if padding < ofs
                    then butlast (stream self) @ [last (stream self) + t, push_bit (8 - ofs) element AND 255]
                    else butlast (stream self) @ [last (stream self) + t])"
    using ne by (simp add: s2_def s1_def has_to_write_carried_def to_byte_eq ca list_update_last_butlast)
  have m: "(if padding = 0 then ofs else (ofs + 8 - padding) mod 8) = (ofs + 8 - padding) mod 8"
    using o by simp
  show ?thesis
    unfolding a recompute_bit_pointer_eq[OF p, of s2, unfolded bp2 m, OF o(2)]
    using False st2 by (simp add: ofs_def[symmetric] t_def[symmetric])
qed


lemma dvd_power_not_bit:
  fixes x :: nat
  assumes "2 ^ n dvd x" "j < n"
  shows "\<not> bit x j"
proof -
  obtain k where "x = 2 ^ n * k" using assms(1) by (auto simp: dvd_def)
  then have "x = push_bit n k" by (simp add: push_bit_eq_mult mult.commute)
  then show ?thesis using assms(2) by (simp add: bit_push_bit_iff)
qed

lemma bit_carried:
  assumes "i < 8" "8 - ofs \<le> i"
  shows "bit (push_bit (8 - ofs) (element::nat) AND 255) i \<longleftrightarrow> bit element (i - (8 - ofs))"
proof -
  have m8: "(255::nat) = mask 8" by (simp add: mask_eq_exp_minus_1)
  show ?thesis unfolding m8 using assms by (auto simp: bit_and_iff bit_push_bit_iff bit_mask_iff)
qed

lemma bba_append_bits:
  assumes wf: "bba_wf self" and el: "element < 256" and p: "padding < 8"
    and d: "2 ^ padding dvd element"
  obtains self' where "bba_append element padding self = Inr self'" "bba_wf self'"
    "bba_size self' = bba_size self + (8 - padding)"
    "\<And>q. q < bba_size self \<Longrightarrow> array_bit 3 (stream self') q = array_bit 3 (stream self) q"
    "\<And>j. j < 8 - padding \<Longrightarrow> array_bit 3 (stream self') (bba_size self + j) = bit element (7 - j)"
proof -
  from bba_append_wf[OF wf el p d]
  obtain self' where a: "bba_append element padding self = Inr self'" and wf': "bba_wf self'"
    by blast
  define S where "S = stream self"
  define bp where "bp = bit_pointer self"
  have bp8: "bp < 8" using wf by (simp add: bba_wf_def bp_def)
  note sh = bba_append_shape[OF wf el p, unfolded a, folded S_def bp_def]
  have st: "stream self' = (if bp = 0 then S @ [element]
                    else if padding < bp
                    then butlast S @ [last S + drop_bit bp element, push_bit (8 - bp) element AND 255]
                    else butlast S @ [last S + drop_bit bp element])"
    and bp': "bit_pointer self' = (bp + 8 - padding) mod 8"
    using sh by simp_all
  have sz: "bba_size self = (if bp = 0 then 8 * length S else 8 * (length S - 1) + bp)"
    using bba_size_eq[OF wf] by (simp add: S_def bp_def)
  have sz': "bba_size self' = (if bit_pointer self' = 0 then 8 * length (stream self')
                          else 8 * (length (stream self') - 1) + bit_pointer self')"
    by (rule bba_size_eq[OF wf'])
  show ?thesis
  proof (cases "bp = 0")
    case True
    have st0: "stream self' = S @ [element]" using st True by simp
    have s0: "bba_size self = 8 * length S" using sz True by simp
    have bp0: "bit_pointer self' = (if padding = 0 then 0 else 8 - padding)"
      using bp' True p by simp
    have size: "bba_size self' = bba_size self + (8 - padding)"
      unfolding sz' st0 s0 bp0 using p by simp
    have old: "array_bit 3 (stream self') q = array_bit 3 (stream self) q" if "q < bba_size self" for q
      using that unfolding st0 s0 S_def by (simp add: array_bit_append_right)
    have new: "array_bit 3 (stream self') (bba_size self + j) = bit element (7 - j)" if "j < 8 - padding" for j
    proof -
      have j8: "j < 8" using that by simp
      show ?thesis unfolding st0 s0 array_bit_pos[OF j8] by simp
    qed
    show ?thesis using that[OF a wf' size old new] by blast
  next
    case False
    define K where "K = length S - 1"
    define l where "l = last S"
    define B where "B = butlast S"
    define t where "t = drop_bit bp element"
    have ne: "S \<noteq> []" and dl: "2 ^ (8 - bp) dvd l"
      using False wf by (auto simp: bba_wf_def S_def bp_def l_def)
    have S: "S = B @ [l]" using ne by (simp add: B_def l_def)
    have lB: "length B = K" by (simp add: B_def K_def)
    have lS: "length S = K + 1" using ne by (simp add: K_def)
    have "element < 2 ^ ((8 - bp) + bp)" using el bp8 by simp
    then have t: "t < 2 ^ (8 - bp)" unfolding t_def drop_bit_eq_div by (rule div_power_less)
    have z: "\<And>j. 0 \<le> j \<Longrightarrow> j < 0 + (8 - bp) \<Longrightarrow> \<not> bit l j"
      using dvd_power_not_bit[OF dl] by simp
    have lbit: "bit (l + t) i \<longleftrightarrow> (if i < 8 - bp then bit element (bp + i) else bit l i)" for i
      using add_into_zero_bits[of 0 "8 - bp" l t i, OF z t]
      by (simp add: t_def bit_drop_bit_eq)
    have s0: "bba_size self = 8 * K + bp" using sz False by (simp add: K_def)
    have st1: "stream self' = (if padding < bp
                    then B @ [l + t, push_bit (8 - bp) element AND 255]
                    else B @ [l + t])"
      using st False by (simp add: B_def l_def t_def)
    have nK: "stream self' ! K = l + t" using st1 lB by (simp add: nth_append)
    have nlt: "stream self' ! i = S ! i" if "i < K" for i
      using st1 lB that by (simp add: nth_append S)
    have size: "bba_size self' = bba_size self + (8 - padding)"
    proof (cases "padding < bp")
      case True
      have e: "bp + 8 - padding = (bp - padding) + 8" using True by simp
      have b: "bit_pointer self' = bp - padding" unfolding bp' e using bp8 by simp
      have "length (stream self') = K + 2" using st1 True lB by simp
      then show ?thesis unfolding sz' b s0 using True p by simp
    next
      case pge: False
      have len: "length (stream self') = K + 1" using st1 pge lB by simp
      show ?thesis
      proof (cases "padding = bp")
        case True
        then have b: "bit_pointer self' = 0" unfolding bp' by simp
        show ?thesis unfolding sz' b s0 len using True bp8 by simp
      next
        case False
        then have lt: "bp < padding" using pge by simp
        then have b: "bit_pointer self' = bp + 8 - padding" unfolding bp' using p by simp
        show ?thesis unfolding sz' b s0 len using lt p by simp
      qed
    qed
    have old: "array_bit 3 (stream self') q = array_bit 3 (stream self) q" if q: "q < bba_size self" for q
    proof -
      define qi where "qi = q div 8"
      define r where "r = q mod 8"
      have qq: "q = 8 * qi + r" and r8: "r < 8" by (simp_all add: qi_def r_def)
      have ab: "array_bit 3 (stream self') q = bit (stream self' ! qi) (7 - r)"
        "array_bit 3 (stream self) q = bit (S ! qi) (7 - r)"
        by (simp_all add: array_bit_def qi_def r_def S_def)
      have "8 * qi + r < 8 * K + bp" using q s0 qq by simp
      then have qiK: "qi \<le> K" using bp8 by simp
      show ?thesis
      proof (cases "qi < K")
        case True
        then show ?thesis unfolding ab by (simp add: nlt)
      next
        case False
        then have qK: "qi = K" using qiK by simp
        have rbp: "r < bp" using q s0 qq qK by simp
        then have "\<not> 7 - r < 8 - bp" using bp8 by simp
        then have "bit (l + t) (7 - r) = bit l (7 - r)" by (simp add: lbit)
        moreover have "S ! K = l" using S lB by (simp add: nth_append)
        ultimately show ?thesis unfolding ab qK nK by simp
      qed
    qed
    have new: "array_bit 3 (stream self') (bba_size self + j) = bit element (7 - j)" if j: "j < 8 - padding" for j
    proof (cases "bp + j < 8")
      case True
      have e: "bba_size self + j = 8 * K + (bp + j)" using s0 by simp
      have "array_bit 3 (stream self') (bba_size self + j) = bit (l + t) (7 - (bp + j))"
        unfolding e array_bit_pos[OF True] nK by (rule refl)
      also have "\<dots> = bit element (bp + (7 - (bp + j)))"
      proof -
        have "7 - (bp + j) < 8 - bp" using True by linarith
        then show ?thesis by (simp only: lbit if_True)
      qed
      also have "bp + (7 - (bp + j)) = 7 - j" using True by simp
      finally show ?thesis .
    next
      case False
      define r where "r = bp + j - 8"
      have r: "r < 8" "bp + j = 8 + r" using False j bp8 by (simp_all add: r_def)
      have plt: "padding < bp" using False j by simp
      have nK1: "stream self' ! (K + 1) = push_bit (8 - bp) element AND 255"
        using st1 plt lB by (simp add: nth_append)
      have e: "bba_size self + j = 8 * (K + 1) + r" using s0 r by simp
      have "array_bit 3 (stream self') (bba_size self + j)
          = bit (push_bit (8 - bp) element AND 255) (7 - r)"
        unfolding e array_bit_pos[OF r(1)] nK1 by (rule refl)
      also have "\<dots> = bit element (7 - r - (8 - bp))"
        by (rule bit_carried) (use r bp8 j in simp_all)
      also have "7 - r - (8 - bp) = 7 - j" using r bp8 j by simp
      finally show ?thesis .
    qed
    show ?thesis using that[OF a wf' size old new] by blast
  qed
qed


subsection \<open>BitByteArray: the bits after an extend\<close>

lemma array_bit_Cons_0: "j < 8 \<Longrightarrow> array_bit 3 (e # es) j = bit e (7 - j)"
  by (simp add: array_bit_def)

lemma array_bit_Cons_Suc: "array_bit 3 (e # es) (8 + p) = array_bit 3 es p"
  using array_bit_append_left[of "[e]" es p] by simp

lemma bba_extend_loop_bits:
  "\<lbrakk>bba_wf self; \<forall>e\<in>set elements. e < 256; padding < 8;
    elements \<noteq> [] \<longrightarrow> 2 ^ padding dvd last elements\<rbrakk> \<Longrightarrow>
   \<exists>self'. bba_extend_loop elements padding self = Inr self' \<and> bba_wf self'
      \<and> bba_size self' = bba_size self + (8 * length elements - (if elements = [] then 0 else padding))
      \<and> (\<forall>q < bba_size self. array_bit 3 (stream self') q = array_bit 3 (stream self) q)
      \<and> (\<forall>j < 8 * length elements - (if elements = [] then 0 else padding).
            array_bit 3 (stream self') (bba_size self + j) = array_bit 3 elements j)"
proof (induction elements arbitrary: self)
  case Nil
  then show ?case by simp
next
  case (Cons e es)
  define pad where "pad = (if es = [] then padding else 0)"
  have e: "e < 256" using Cons.prems(2) by simp
  have pad8: "pad < 8" using Cons.prems(3) by (simp add: pad_def)
  have dv: "2 ^ pad dvd e" using Cons.prems(4) by (auto simp: pad_def split: if_splits)
  from bba_append_bits[OF Cons.prems(1) e pad8 dv]
  obtain s1 where a: "bba_append e pad self = Inr s1" and wf1: "bba_wf s1"
    and sz1: "bba_size s1 = bba_size self + (8 - pad)"
    and old1: "\<And>q. q < bba_size self \<Longrightarrow> array_bit 3 (stream s1) q = array_bit 3 (stream self) q"
    and new1: "\<And>j. j < 8 - pad \<Longrightarrow> array_bit 3 (stream s1) (bba_size self + j) = bit e (7 - j)"
    by blast
  have step: "bba_extend_loop (e # es) padding self = bba_extend_loop es padding s1"
    using a by (simp add: pad_def Let_def)
  show ?case
  proof (cases "es = []")
    case True
    then have pp: "pad = padding" by (simp add: pad_def)
    have "array_bit 3 (stream s1) (bba_size self + j) = array_bit 3 [e] j" if "j < 8 - padding" for j
      using new1[of j] that pp by (simp add: array_bit_Cons_0)
    then show ?thesis using True step wf1 sz1 old1 pp by simp
  next
    case False
    then have p0: "pad = 0" by (simp add: pad_def)
    have es: "\<forall>e\<in>set es. e < 256" "es \<noteq> [] \<longrightarrow> 2 ^ padding dvd last es"
      using Cons.prems(2,4) False by simp_all
    from Cons.IH[OF wf1 es(1) Cons.prems(3) es(2)]
    obtain self' where r: "bba_extend_loop es padding s1 = Inr self'" and wf': "bba_wf self'"
      and sz': "bba_size self' = bba_size s1 + (8 * length es - padding)"
      and old': "\<And>q. q < bba_size s1 \<Longrightarrow> array_bit 3 (stream self') q = array_bit 3 (stream s1) q"
      and new': "\<And>j. j < 8 * length es - padding \<Longrightarrow>
                  array_bit 3 (stream self') (bba_size s1 + j) = array_bit 3 es j"
      using False by auto
    have s1: "bba_size s1 = bba_size self + 8" using sz1 p0 by simp
    obtain n where n: "length es = Suc n" using False by (cases es) auto
    have size: "bba_size self' = bba_size self + (8 * length (e # es) - padding)"
      unfolding sz' s1 using Cons.prems(3) by (simp add: n)
    have old: "array_bit 3 (stream self') q = array_bit 3 (stream self) q" if "q < bba_size self" for q
      using old'[of q] old1[of q] that s1 by simp
    have new: "array_bit 3 (stream self') (bba_size self + j) = array_bit 3 (e # es) j"
      if j: "j < 8 * length (e # es) - padding" for j
    proof (cases "j < 8")
      case True
      have "array_bit 3 (stream self') (bba_size self + j) = array_bit 3 (stream s1) (bba_size self + j)"
        by (rule old') (use True s1 in simp)
      also have "\<dots> = bit e (7 - j)" by (rule new1) (use True p0 in simp)
      finally show ?thesis using True by (simp add: array_bit_Cons_0)
    next
      case False
      define j' where "j' = j - 8"
      have j': "j = 8 + j'" "j' < 8 * length es - padding"
        using False j Cons.prems(3) by (simp_all add: j'_def n)
      have "bba_size self + j = bba_size s1 + j'" using s1 j' by simp
      then have "array_bit 3 (stream self') (bba_size self + j) = array_bit 3 es j'"
        using new'[OF j'(2)] by simp
      then show ?thesis unfolding j'(1) array_bit_Cons_Suc .
    qed
    show ?thesis using step r wf' size old new False by simp
  qed
qed

lemma bba_extend_bits:
  assumes wf: "bba_wf self" and el: "\<forall>e\<in>set elements. e < 256" and p: "padding < 8"
    and d: "elements \<noteq> [] \<longrightarrow> 2 ^ padding dvd last elements"
  obtains self' where "bba_extend elements padding self = Inr self'" "bba_wf self'"
    "bba_size self' = bba_size self + (8 * length elements - (if elements = [] then 0 else padding))"
    "\<And>q. q < bba_size self \<Longrightarrow> array_bit 3 (stream self') q = array_bit 3 (stream self) q"
    "\<And>j. j < 8 * length elements - (if elements = [] then 0 else padding) \<Longrightarrow>
       array_bit 3 (stream self') (bba_size self + j) = array_bit 3 elements j"
proof -
  from bba_extend_loop_bits[OF assms]
  obtain self' where "bba_extend_loop elements padding self = Inr self'" "bba_wf self'"
    "bba_size self' = bba_size self + (8 * length elements - (if elements = [] then 0 else padding))"
    "\<And>q. q < bba_size self \<Longrightarrow> array_bit 3 (stream self') q = array_bit 3 (stream self) q"
    "\<And>j. j < 8 * length elements - (if elements = [] then 0 else padding) \<Longrightarrow>
       array_bit 3 (stream self') (bba_size self + j) = array_bit 3 elements j"
    by blast
  then show ?thesis using that by (simp add: bba_extend_def validate_padding_def)
qed

lemma bba_wf_empty: "bba_wf BitByteArray" "bba_size BitByteArray = 0"
  by (simp_all add: bba_wf_def BitByteArray_def bba_size_def bba_padding_def)

lemma bba_wf_stream:
  assumes "bba_wf self"
  shows "\<forall>w\<in>set (stream self). w < 256" and "bba_size self \<le> 8 * length (stream self)"
    and "bba_padding self < 8"
    and "stream self \<noteq> [] \<longrightarrow> 2 ^ bba_padding self dvd last (stream self)"
    and "bba_size self = 8 * length (stream self) - (if stream self = [] then 0 else bba_padding self)"
proof -
  have bp: "bit_pointer self < 8" using assms by (simp add: bba_wf_def)
  show "\<forall>w\<in>set (stream self). w < 256" using assms by (simp add: bba_wf_def)
  show "bba_size self \<le> 8 * length (stream self)" by (simp add: bba_size_def)
  show "bba_padding self < 8" using bp by (simp add: bba_padding_eq)
  show "stream self \<noteq> [] \<longrightarrow> 2 ^ bba_padding self dvd last (stream self)"
    using assms bp by (auto simp: bba_wf_def bba_padding_eq)
  show "bba_size self = 8 * length (stream self) - (if stream self = [] then 0 else bba_padding self)"
    using assms bp by (auto simp: bba_size_def bba_wf_def bba_padding_eq)
qed


subsection \<open>Gamma round trip\<close>

lemma unary_bytes_dvd: "2 ^ (7 - m mod 8) dvd last (unary_bytes m)"
proof -
  have "(2::nat) ^ (7 - m mod 8) dvd 2 ^ (8 - m mod 8)" by (rule le_imp_power_dvd) simp
  then have "(2::nat) ^ (7 - m mod 8) dvd push_bit (8 - m mod 8) 255"
    by (simp add: push_bit_eq_mult)
  then show ?thesis unfolding unary_bytes_last by (rule dvd_and_255) simp
qed

lemma unary_bytes_size: "8 * length (unary_bytes m) - (7 - m mod 8) = m + 1"
proof -
  define D where "D = m div 8"
  define R where "R = m mod 8"
  have mm: "m = 8 * D + R" and R8: "R < 8" by (simp_all add: D_def R_def)
  have "8 * (D + 1) - (7 - R) = 8 * D + R + 1" using R8 by simp
  then show ?thesis unfolding unary_bytes_length D_def[symmetric] R_def[symmetric] mm by simp
qed

lemma to_bytes_length: "length (to_bytes sz x) = sz"
  by (simp add: to_bytes_def)

lemma to_bytes_bytes: "\<forall>w\<in>set (to_bytes sz x). w < 256"
  by (auto simp: to_bytes_def and_255_less)

lemma bit_byte_of: "i < 8 \<Longrightarrow> bit (drop_bit n (x::nat) AND 255) i = bit x (n + i)"
proof -
  assume i: "i < 8"
  have m8: "(255::nat) = mask 8" by (simp add: mask_eq_exp_minus_1)
  show ?thesis unfolding m8 using i by (simp add: bit_and_iff bit_mask_iff bit_drop_bit_eq)
qed

lemma to_bytes_bit:
  assumes "j < 8 * sz"
  shows "array_bit 3 (to_bytes sz x) j = bit x (8 * sz - 1 - j)"
proof -
  define q where "q = j div 8"
  define r where "r = j mod 8"
  have j: "j = 8 * q + r" and r8: "r < 8" by (simp_all add: q_def r_def)
  have q: "q < sz" using assms j by simp
  have m8: "(255::nat) = mask 8" by (simp add: mask_eq_exp_minus_1)
  have n: "to_bytes sz x ! q = drop_bit (8 * (sz - 1 - q)) x AND 255"
    using q by (simp add: to_bytes_def rev_nth push_bit_eq_mult mult.commute)
  have "array_bit 3 (to_bytes sz x) j = bit (to_bytes sz x ! q) (7 - r)"
    by (simp add: array_bit_def q_def r_def)
  also have "\<dots> = bit x (8 * (sz - 1 - q) + (7 - r))"
    unfolding n by (rule bit_byte_of) simp
  also have "8 * (sz - 1 - q) + (7 - r) = 8 * sz - 1 - j"
  proof -
    obtain d where d: "sz = q + 1 + d" using q by (metis Suc_eq_plus1 Suc_leI le_Suc_ex)
    show ?thesis unfolding d j using r8 by simp
  qed
  finally show ?thesis .
qed

lemma to_bytes_last_dvd:
  assumes "2 ^ padding dvd x" "padding \<le> 8" "0 < sz"
  shows "2 ^ padding dvd last (to_bytes sz x)"
proof -
  obtain n where n: "sz = Suc n" using assms(3) by (cases sz) auto
  have "rev [0..<Suc n] \<noteq> []" by simp
  moreover have "last (rev [0..<Suc n]) = 0" by (simp add: last_rev del: upt_Suc)
  ultimately have "last (to_bytes sz x) = x AND 255"
    unfolding n to_bytes_def by (simp add: last_map del: upt_Suc rev.simps)
  then show ?thesis using dvd_and_255[OF assms(1,2)] by simp
qed

lemma gamma_roundtrip:
  assumes "0 < number"
  shows "\<exists>encoded padding. gamma_encode number = Inr (encoded, padding)
           \<and> gamma_decode encoded 1 = Inr [number]"
proof -
  define g where "g = floor_log2 number"
  define number' where "number' = number - 2 ^ g"
  define D where "D = g div 8"
  define R where "R = g mod 8"
  define sz where "sz = ceil_div g 8"
  define vbpadding where "vbpadding = (if 8 - R = 8 then 0 else 8 - R)"
  define x where "x = push_bit vbpadding number'"
  define vbencoded where "vbencoded = to_bytes sz x"
  have gD: "g = 8 * D + R" and R8: "R < 8" by (simp_all add: D_def R_def)
  have bnd: "2 ^ g \<le> number" "number < 2 ^ (g + 1)"
    using floor_log2_bounds[OF assms] by (simp_all add: g_def)
  have n': "number' < 2 ^ g" "number' + 2 ^ g = number" using bnd by (simp_all add: number'_def)
  have sz: "sz = (if R = 0 then D else D + 1)"
    unfolding sz_def ceil_div_def gD using R8 by (auto simp: div_eq_of_bounds[of _ 8])
  have vp: "vbpadding = (if R = 0 then 0 else 8 - R)" "vbpadding < 8"
    using R8 by (auto simp: vbpadding_def)
  have szg: "8 * sz - vbpadding = g" "vbpadding \<le> 8 * sz" "8 * sz = g + vbpadding"
    unfolding sz vp gD using R8 by auto
  have tv: "to_vb number = Inr (vbencoded, vbpadding)"
    using assms
    by (simp add: to_vb_def Let_def g_def[symmetric] number'_def[symmetric] and_7_mod
        R_def[symmetric] sz_def[symmetric] vbpadding_def x_def vbencoded_def)
  have lv: "length vbencoded = sz" by (simp add: vbencoded_def to_bytes_length)
  have ue: "unary_encode_int (int (length vbencoded * 8) - int vbpadding) False
      = Inr (unary_bytes g, 7 - g mod 8)"
  proof -
    have "int (length vbencoded * 8) - int vbpadding = int g"
      using szg by (simp add: lv mult.commute)
    then show ?thesis by (simp add: unary_encode_int_def unary_encode_plain)
  qed
  have p1: "7 - g mod 8 < 8" by simp
  have ne1: "(unary_bytes g = []) = False" by (simp add: unary_bytes_def)
  have d1: "unary_bytes g \<noteq> [] \<longrightarrow> 2 ^ (7 - g mod 8) dvd last (unary_bytes g)"
    using unary_bytes_dvd by simp
  from bba_extend_bits[OF bba_wf_empty(1) unary_bytes_bytes p1 d1]
  obtain b1 where e1: "bba_extend (unary_bytes g) (7 - g mod 8) BitByteArray = Inr b1"
    and wf1: "bba_wf b1"
    and s1r: "bba_size b1 = bba_size BitByteArray
         + (8 * length (unary_bytes g) - (if unary_bytes g = [] then 0 else 7 - g mod 8))"
    and bits1r: "\<And>j. j < 8 * length (unary_bytes g) - (if unary_bytes g = [] then 0 else 7 - g mod 8) \<Longrightarrow>
       array_bit 3 (stream b1) (bba_size BitByteArray + j) = array_bit 3 (unary_bytes g) j"
    by blast
  have s1: "bba_size b1 = g + 1"
    using s1r by (simp only: ne1 if_False unary_bytes_size bba_wf_empty(2) add_0)
  have bits1: "array_bit 3 (stream b1) j = array_bit 3 (unary_bytes g) j" if "j < g + 1" for j
    using bits1r[of j] that by (simp only: ne1 if_False unary_bytes_size bba_wf_empty(2) add_0)
  have dv: "vbencoded \<noteq> [] \<longrightarrow> 2 ^ vbpadding dvd last vbencoded"
  proof
    assume "vbencoded \<noteq> []"
    then have "0 < sz" using lv by auto
    moreover have "2 ^ vbpadding dvd x" by (simp add: x_def push_bit_eq_mult)
    ultimately show "2 ^ vbpadding dvd last vbencoded"
      unfolding vbencoded_def using vp(2) by (intro to_bytes_last_dvd) simp_all
  qed
  have ex: "8 * length vbencoded - (if vbencoded = [] then 0 else vbpadding) = g"
    using szg lv by (cases "vbencoded = []") auto
  have by2: "\<forall>e\<in>set vbencoded. e < 256" unfolding vbencoded_def by (rule to_bytes_bytes)
  from bba_extend_bits[OF wf1 by2 vp(2) dv]
  obtain b2 where e2: "bba_extend vbencoded vbpadding b1 = Inr b2"
    and wf2: "bba_wf b2"
    and s2r: "bba_size b2 = bba_size b1
         + (8 * length vbencoded - (if vbencoded = [] then 0 else vbpadding))"
    and old2r: "\<And>q. q < bba_size b1 \<Longrightarrow> array_bit 3 (stream b2) q = array_bit 3 (stream b1) q"
    and new2r: "\<And>j. j < 8 * length vbencoded - (if vbencoded = [] then 0 else vbpadding) \<Longrightarrow>
       array_bit 3 (stream b2) (bba_size b1 + j) = array_bit 3 vbencoded j"
    by blast
  have s2: "bba_size b2 = g + 1 + g" using s2r unfolding ex s1 .
  have old2: "array_bit 3 (stream b2) q = array_bit 3 (stream b1) q" if "q < g + 1" for q
    using old2r[of q] that unfolding s1 .
  have new2: "array_bit 3 (stream b2) (g + 1 + j) = array_bit 3 vbencoded j" if "j < g" for j
    using new2r[of j] that unfolding ex s1 .
  define encoded where "encoded = stream b2"
  have ge: "gamma_encode number = Inr (encoded, bba_padding b2)"
    unfolding gamma_encode_def tv Let_def sum.case prod.case ue gamma_merge_encodes_def e1 e2 encoded_def
    by (rule refl)
  have bytes: "\<forall>w\<in>set encoded. w < 256" using bba_wf_stream(1)[OF wf2] by (simp add: encoded_def)
  have len: "g + 1 + g \<le> 8 * length encoded"
    using bba_wf_stream(2)[OF wf2] s2 by (simp add: encoded_def)
  have ub: "array_bit 3 encoded p \<longleftrightarrow> p < g" if "p < g + 1" for p
  proof -
    have "p < 8 * (g div 8 + 1)" using that less_times_div_Suc[of g] by simp
    then show ?thesis
      using old2[OF that] bits1[OF that] unary_bytes_bit[of p g] by (simp add: encoded_def)
  qed
  have ud: "unary_decode encoded 1 False 0 = Inr [g + (if False then 1 else 0)]"
  proof (rule unary_decode_run[OF bytes])
    show "array_bit 3 encoded p" if "0 \<le> p" "p < 0 + g" for p using ub[of p] that by simp
    show "\<not> array_bit 3 encoded (0 + g)" using ub[of g] by simp
    show "0 + g < 8 * length encoded" using len by simp
  qed
  have rd: "read_binary_from_barray encoded (g + 1) g = Inr number'"
  proof (rule read_binary_from_barray_value)
    show "g + 1 + g \<le> 8 * length encoded" by (rule len)
    show "number' < 2 ^ g" by (rule n'(1))
    fix t assume t: "t < g"
    define j where "j = g - 1 - t"
    have j: "j < g" "g + 1 + g - 1 - t = g + 1 + j" "j < 8 * sz" using t szg by (simp_all add: j_def)
    have "array_bit 3 encoded (g + 1 + j) = array_bit 3 vbencoded j"
      using new2[OF j(1)] by (simp add: encoded_def)
    also have "\<dots> = bit x (8 * sz - 1 - j)" unfolding vbencoded_def by (rule to_bytes_bit[OF j(3)])
    also have "\<dots> = bit number' (8 * sz - 1 - j - vbpadding)"
    proof -
      have "vbpadding \<le> 8 * sz - 1 - j" using szg(3) j(1) by linarith
      then show ?thesis by (simp add: x_def bit_push_bit_iff)
    qed
    also have "8 * sz - 1 - j - vbpadding = t" using szg t by (simp add: j_def)
    finally show "array_bit 3 encoded (g + 1 + g - 1 - t) = bit number' t" unfolding j(2) .
  qed
  have "gamma_decode encoded 1 = Inr [number]"
    using ud rd n'(2) by (simp add: gamma_decode_def Let_def push_bit_eq_mult)
  then show ?thesis using ge by blast
qed

lemma gamma_encode_zero: "gamma_encode 0 = Inl ValueError"
  by (simp add: gamma_encode_def to_vb_def)


subsection \<open>Round-trip law\<close>





subsection \<open>PForDelta header word\<close>

text \<open>
  C5 as stated fails: on the two 32-bit numbers \<open>[7, 4294967295]\<close> the optimal \<open>b\<close> is 3,
  the high part \<open>2 ^ 29 - 1\<close> of the exception does not fit any Simple-16 format and
  \<open>encode\<close> raises \<open>TypeError\<close>: the output has no first word.
\<close>

theorem pfor_header_counterexample:
  "pfor_encode [7, 4294967295] = Inl TypeError"
  by code_simp

text \<open>
  C5, amended: for every list of \<open>n < 2 ^ 27\<close> numbers whose high parts \<open>x >> b\<close> are all
  below \<open>2 ^ 28\<close>, \<open>encode\<close> returns, the first word of its output is
  \<open>((b - 1) << 27) | exception_count\<close>, where \<open>b\<close> in \<open>1..32\<close> minimises the estimated size
  \<open>32 + b * n + 32 * |{x. x > 2 ^ b - 1}|\<close> (the smallest such \<open>b\<close> on ties) and
  \<open>exception_count = |{x. x > 2 ^ b - 1}|\<close>, and \<open>get_header\<close> reads the pair
  \<open>(b, exception_count)\<close> back from that word.
\<close>

theorem pfor_header:
  fixes numbers :: "nat list"
  defines "b \<equiv> find_optimal_b numbers"
  defines "estimated \<equiv> (\<lambda>b'. 32 + b' * length numbers + 32 * length (filter (\<lambda>x. x > 2 ^ b' - 1) numbers))"
  defines "exception_count \<equiv> length (filter (\<lambda>x. x > 2 ^ b - 1) numbers)"
  assumes "length numbers < 2 ^ 27" and "\<forall>x\<in>set numbers. drop_bit b x < 2 ^ 28"
  shows "\<exists>encoded. pfor_encode numbers = Inr encoded
           \<and> encoded ! 0 = push_bit 27 (b - 1) OR exception_count
           \<and> get_header encoded = Inr (b, exception_count)
           \<and> 1 \<le> b \<and> b \<le> 32
           \<and> (\<forall>b'. 1 \<le> b' \<and> b' \<le> 32 \<longrightarrow> estimated b \<le> estimated b' \<and> (b' < b \<longrightarrow> estimated b < estimated b'))"
proof -
  have est: "estimate_encoded_size numbers b' = estimated b'" for b'
    by (simp add: estimate_encoded_size_def estimated_def HEADER_SIZE_def MASKS_eq mult.commute)
  have c: "exception_count = length (filter (\<lambda>number. number > MASKS b) numbers)"
    by (simp add: exception_count_def MASKS_eq)
  have b: "1 \<le> b" "b \<le> 32" unfolding b_def by (rule find_optimal_b_props)+
  have "exception_count \<le> length numbers" unfolding exception_count_def by (rule length_filter_le)
  then have c27: "exception_count < 2 ^ 27" using assms(4) by simp
  have "\<exists>rest. pfor_encode numbers = Inr ([push_bit 27 (b - 1) + exception_count] @ rest)
      \<and> pfor_decode ([push_bit 27 (b - 1) + exception_count] @ rest) (length numbers) = Inr numbers"
    using pfor_encode_succeeds[OF assms(4) assms(5)[unfolded b_def]] unfolding c b_def .
  then obtain rest where e: "pfor_encode numbers = Inr ([push_bit 27 (b - 1) + exception_count] @ rest)"
    and d: "pfor_decode ([push_bit 27 (b - 1) + exception_count] @ rest) (length numbers) = Inr numbers"
    by blast
  define encoded where "encoded = [push_bit 27 (b - 1) + exception_count] @ rest"
  have h0: "encoded ! 0 = push_bit 27 (b - 1) OR exception_count"
    using pfor_header_word(3)[OF b(1) c27] by (simp add: encoded_def)
  have gh: "get_header encoded = Inr (b, exception_count)"
    using pfor_header_word(1,2)[OF b(1) c27] by (simp add: get_header_def B_HEADER_SIZE_def encoded_def)
  have m1: "estimated b \<le> estimated b'" if "1 \<le> b'" "b' \<le> 32" for b'
    using find_optimal_b_props(3)[OF that, of numbers] by (simp add: est b_def)
  have m2: "estimated b < estimated b'" if "1 \<le> b'" "b' < b" for b'
    using find_optimal_b_props(4)[of b' numbers] that by (simp add: est b_def)
  show ?thesis
    using e h0 gh b m1 m2 unfolding encoded_def by blast
qed

theorem pfor_header_witness:
  "pfor_encode [5, 1000, 70000, 3, 123456789, 0] = Inr [268435459, 2688155648, 807436925, 8750, 15432098]
   \<and> ([268435459, 2688155648, 807436925, 8750, 15432098] ! 0 :: nat) = push_bit 27 (3 - 1) OR 3
   \<and> get_header [268435459, 2688155648, 807436925, 8750, 15432098] = Inr (3, 3)"
proof -
  have b: "find_optimal_b [5, 1000, 70000, 3, 123456789, 0] = 3" by code_simp
  have e: "pfor_encode [5, 1000, 70000, 3, 123456789, 0] = Inr [268435459, 2688155648, 807436925, 8750, 15432098]"
    by code_simp
  have h1: "length [5, 1000, 70000, 3, 123456789, 0::nat] < 2 ^ 27" by simp
  have h2: "\<forall>x\<in>set [5, 1000, 70000, 3, 123456789, 0::nat]. drop_bit (find_optimal_b [5, 1000, 70000, 3, 123456789, 0]) x < 2 ^ 28"
    unfolding b by (simp add: drop_bit_eq_div)
  have c: "length (filter (\<lambda>x. x > 2 ^ 3 - 1) [5, 1000, 70000, 3, 123456789, 0::nat]) = 3" by simp
  show ?thesis
    using pfor_header[OF h1 h2] unfolding b e c by auto
qed

end
